theory Spec2Isabelle
  imports Main "HOL-Library.AList"
begin

section \<open>Common data\<close>

text \<open>
  The exceptions the modelled code raises or catches. The built-in ones of Python keep
  their names and carry their message where the code builds one; \<open>ProgramError\<close> and
  \<open>ProgramFailure\<close> carry the message they are constructed with in program.py.
  \<open>DuplicateRun\<close>, \<open>AlreadyTerminal\<close> and \<open>AlreadyStarted\<close> are the precondition
  errors of the run store and of the run transitions.
\<close>

datatype exc =
    ValueError string
  | LookupError string
  | KeyError string
  | TypeError string
  | IndexError
  | AssertionError
  | QueueFull
  | DuplicateRun
  | AlreadyTerminal
  | AlreadyStarted
  | ProgramError string
  | ProgramFailure string

text \<open>
  Times (\<^verbatim>\<open>ora.now()\<close>) and their differences are whole numbers of clock units.
\<close>

type_synonym time = int

text \<open>The values the code stores in \<^verbatim>\<open>run.meta\<close>: strings and integers.\<close>

datatype jso = Str string | Num int

text \<open>
  A Python dict keeps insertion order; it is an association list with distinct keys.
  \<^verbatim>\<open>d[k] = v\<close> is \<^const>\<open>AList.update\<close> (in place when the key exists, appended
  otherwise), \<^verbatim>\<open>d[k]\<close> is \<^const>\<open>map_of\<close> (KeyError on None), \<^verbatim>\<open>d.update(e)\<close>
  assigns the items of \<open>e\<close> in order, and \<^verbatim>\<open>del d[k]\<close> raises KeyError when the key
  is absent.
\<close>

definition dict_update :: "('k \<times> 'v) list \<Rightarrow> ('k \<times> 'v) list \<Rightarrow> ('k \<times> 'v) list" where
  "dict_update d e = fold (\<lambda>(k, v). AList.update k v) e d"

definition dict_del :: "'k \<Rightarrow> ('k \<times> 'v) list \<Rightarrow> ('k \<times> 'v) list option" where
  "dict_del k d = (if map_of d k = None then None else Some (AList.delete k d))"

text \<open>Python's \<^verbatim>\<open>str\<close> of an integer, in decimal.\<close>

fun str_nat :: "nat \<Rightarrow> string" where
  "str_nat n =
     (if n < 10 then [''0123456789'' ! n]
      else str_nat (n div 10) @ [''0123456789'' ! (n mod 10)])"

definition str_int :: "int \<Rightarrow> string" where
  "str_int i = (if i < 0 then ''-'' @ str_nat (nat (- i)) else str_nat (nat i))"

section \<open>lib/api.py\<close>

text \<open>
  \<^verbatim>\<open>to_bool(string)\<close>: membership in the first literal set gives True, in the second
  False, anything else raises ValueError with the f-string message.
\<close>

definition to_bool :: "string \<Rightarrow> exc + bool" where
  "to_bool s =
     (if s \<in> {''True'', ''true'', ''T'', ''t''} then Inr True
      else if s \<in> {''False'', ''false'', ''F'', ''f''} then Inr False
      else Inl (ValueError (''unknown bool: '' @ s)))"

section \<open>service/main.py: QueueHandler\<close>

text \<open>
  \<^verbatim>\<open>asyncio.Queue\<close>, as far as \<^verbatim>\<open>put_nowait\<close> goes: a bound \<open>maxsize\<close>
  (unbounded when it is 0) and the items held. \<^verbatim>\<open>full()\<close> is false for an
  unbounded queue and otherwise compares the size with the bound; \<^verbatim>\<open>put_nowait\<close>
  raises QueueFull on a full queue and appends otherwise.
\<close>

record Queue =
  maxsize :: nat
  items :: "string list"

definition full :: "Queue \<Rightarrow> bool" where
  "full q = (if maxsize q = 0 then False else length (items q) \<ge> maxsize q)"

definition put_nowait :: "string \<Rightarrow> Queue \<Rightarrow> exc + Queue" where
  "put_nowait item q = (if full q then Inl QueueFull else Inr (q\<lparr>items := items q @ [item]\<rparr>))"

text \<open>
  The handler: its formatter and the registered queues in registration order. The
  formatter is the method \<^verbatim>\<open>formatter.format\<close>: of a log record it returns the text,
  or raises (a record whose arguments do not fit its message raises TypeError).
\<close>

record 'r QueueHandler =
  formatter :: "'r \<Rightarrow> exc + string"
  queues :: "Queue list"

definition QueueHandler_init :: "('r \<Rightarrow> exc + string) \<Rightarrow> 'r QueueHandler" where
  "QueueHandler_init fmt = \<lparr>formatter = fmt, queues = []\<rparr>"

definition register :: "'r QueueHandler \<Rightarrow> Queue \<times> 'r QueueHandler" where
  "register h = (let queue = \<lparr>maxsize = 0, items = []\<rparr> in (queue, h\<lparr>queues := queues h @ [queue]\<rparr>))"

text \<open>
  The loop of \<^verbatim>\<open>emit\<close> over the snapshot \<^verbatim>\<open>list(self.__queues)\<close>: the
  \<^verbatim>\<open>try\<close> catches QueueFull only, so any other exception of \<^verbatim>\<open>put_nowait\<close>
  would leave the loop. The record is formatted before the loop and outside the
  \<^verbatim>\<open>try\<close>: an exception of the formatter leaves \<^verbatim>\<open>emit\<close> at once.
\<close>

fun emit_loop :: "string \<Rightarrow> Queue list \<Rightarrow> exc + Queue list" where
  "emit_loop data [] = Inr []"
| "emit_loop data (queue # rest) =
     (case put_nowait data queue of
        Inr queue' \<Rightarrow> (case emit_loop data rest of Inl e \<Rightarrow> Inl e | Inr rest' \<Rightarrow> Inr (queue' # rest'))
      | Inl QueueFull \<Rightarrow> (case emit_loop data rest of Inl e \<Rightarrow> Inl e | Inr rest' \<Rightarrow> Inr (queue # rest'))
      | Inl e \<Rightarrow> Inl e)"

definition emit :: "'r QueueHandler \<Rightarrow> 'r \<Rightarrow> exc + 'r QueueHandler" where
  "emit h record' =
     (case formatter h record' of
        Inl e \<Rightarrow> Inl e
      | Inr data \<Rightarrow>
          (case emit_loop data (queues h) of
             Inl e \<Rightarrow> Inl e
           | Inr qs \<Rightarrow> Inr (h\<lparr>queues := qs\<rparr>)))"

section \<open>Jobs, instances and runs\<close>

text \<open>
  \<^verbatim>\<open>ProcessProgram\<close> (program.py) keeps the argument vector and the executable, the
  path made of \<^verbatim>\<open>argv[0]\<close>. \<^verbatim>\<open>ShellCommandProgram\<close> is its subclass with one
  more attribute, the command.
\<close>

record ProcessProgram =
  argv :: "string list"
  executable :: string

record ShellCommandProgram = ProcessProgram +
  command :: string

text \<open>
  The classes of job.py and runs.py are used by the modelled code but defined outside
  it; the records below hold the attributes that code reads and writes.

  Modelled from the spec: the rerun policy \<open>{count, delay, max_delay}\<close> of a job, the
  count a natural number.
\<close>

record Reruns =
  count :: nat
  delay :: time
  max_delay :: time

text \<open>
  Modelled from the spec: a job has an id, an ordered set of named parameters, a program
  template and a rerun policy. The template is its \<^verbatim>\<open>bind\<close> method, a function from
  the interpolation context to a program.
\<close>

record Job =
  job_id :: string
  params :: "string list"
  program :: "(string \<times> string) list \<Rightarrow> ProcessProgram"
  reruns :: Reruns

text \<open>Modelled from the spec: an instance is the pair of a job id and its arguments.\<close>

record Instance =
  job_id :: string
  args :: "(string \<times> string) list"

datatype STATE =
  STATE_new | STATE_scheduled | STATE_running | STATE_success | STATE_failure | STATE_error

definition STATE_name :: "STATE \<Rightarrow> string" where
  "STATE_name st =
     (case st of STATE_new \<Rightarrow> ''new'' | STATE_scheduled \<Rightarrow> ''scheduled''
      | STATE_running \<Rightarrow> ''running'' | STATE_success \<Rightarrow> ''success''
      | STATE_failure \<Rightarrow> ''failure'' | STATE_error \<Rightarrow> ''error'')"

text \<open>
  Run ids are issued by the run store in increasing order; the model takes the counter
  value itself as the id.
\<close>

type_synonym run_id = nat

text \<open>
  Modelled from the spec: the fields of a run. \<open>run_id\<close> and \<open>rerun\<close> are None until
  the run is added to the store (the code tests \<^verbatim>\<open>run.rerun is None\<close>); a value of
  \<open>times\<close> may be None (the code tests \<^verbatim>\<open>times["schedule"] is not None\<close>).
  \<open>run_output\<close> is the attribute \<^verbatim>\<open>output\<close> that program.py assigns the captured output to.
\<close>

record Run =
  run_id :: "run_id option"
  inst :: Instance
  rerun :: "run_id option"
  expected :: bool
  state :: STATE
  times :: "(string \<times> time option) list"
  meta :: "(string \<times> jso) list"
  message :: "string option"
  program :: "ProcessProgram option"
  run_output :: "string option"

text \<open>
  Modelled from the spec: the constructor \<^verbatim>\<open>Run(inst, rerun=rerun)\<close>. A run starts
  in state new, not expected, without program; its times always include "schedule",
  unknown (None) until the run is scheduled.
\<close>

definition Run_init :: "Instance \<Rightarrow> run_id option \<Rightarrow> Run" where
  "Run_init i r =
     \<lparr>run_id = None, inst = i, rerun = r, expected = False, state = STATE_new,
      times = [(''schedule'', None)], meta = [], message = None, program = None,
      run_output = None\<rparr>"

text \<open>
  Modelled from the spec: the state graph. The allowed transitions are
  new to scheduled, running or error; scheduled to running or error; running to
  success, failure or error. The terminal states success, failure and error are
  absorbing.
\<close>

definition terminal :: "STATE \<Rightarrow> bool" where
  "terminal st \<longleftrightarrow> st = STATE_success \<or> st = STATE_failure \<or> st = STATE_error"

definition allowed :: "STATE \<Rightarrow> STATE \<Rightarrow> bool" where
  "allowed st st' \<longleftrightarrow>
     (st = STATE_new \<and> (st' = STATE_scheduled \<or> st' = STATE_running \<or> st' = STATE_error)) \<or>
     (st = STATE_scheduled \<and> (st' = STATE_running \<or> st' = STATE_error)) \<or>
     (st = STATE_running \<and> (st' = STATE_success \<or> st' = STATE_failure \<or> st' = STATE_error))"

text \<open>
  Modelled from the spec: \<^verbatim>\<open>run._transition(time, state, **kw_args)\<close>, where the
  enforcement of the state graph lives. A transition out of a terminal state is refused
  with AlreadyTerminal, any other transition that is not an edge of the graph with
  AlreadyStarted; a refused transition changes nothing. An allowed transition replaces
  the state, records the time of the state entered, merges \<open>times\<close> and \<open>meta\<close> and
  overwrites the message.
\<close>

definition Run_transition ::
  "time \<Rightarrow> STATE \<Rightarrow> (string \<times> jso) list \<Rightarrow> (string \<times> time option) list \<Rightarrow> string option
     \<Rightarrow> Run \<Rightarrow> exc + Run" where
  "Run_transition time st m ts msg run =
     (if terminal (state run) then Inl AlreadyTerminal
      else if \<not> allowed (state run) st then Inl AlreadyStarted
      else Inr (run\<lparr>state := st,
                    times := dict_update (AList.update (STATE_name st) (Some time) (times run)) ts,
                    meta := dict_update (meta run) m,
                    message := msg\<rparr>))"

section \<open>cond/base.py\<close>

text \<open>
  The inner function \<^verbatim>\<open>get(name)\<close> of \<^verbatim>\<open>_bind\<close>. \<^verbatim>\<open>template_expand\<close> is imported
  from apsis.runs and is a parameter here; it may raise. The first \<^verbatim>\<open>try\<close> covers
  both the lookup \<^verbatim>\<open>obj_args[name]\<close> and the expansion, so a KeyError of either falls
  through to \<^verbatim>\<open>inst_args\<close>, and any other exception leaves \<^verbatim>\<open>get\<close>.
\<close>

definition get ::
  "(string \<Rightarrow> 'b \<Rightarrow> exc + string) \<Rightarrow> 'j Job_scheme \<Rightarrow> (string \<rightharpoonup> string) \<Rightarrow> (string \<rightharpoonup> string)
     \<Rightarrow> 'b \<Rightarrow> string \<Rightarrow> exc + string" where
  "get template_expand job obj_args inst_args bind_args name =
     (case (case obj_args name of
              None \<Rightarrow> Inl (KeyError name)
            | Some template \<Rightarrow> template_expand template bind_args) of
        Inr v \<Rightarrow> Inr v
      | Inl (KeyError _) \<Rightarrow>
          (case inst_args name of
             Some v \<Rightarrow> Inr v
           | None \<Rightarrow>
               Inl (LookupError (''no value for param '' @ name @ '' of job '' @ Job.job_id job)))
      | Inl e \<Rightarrow> Inl e)"

text \<open>
  The dict comprehension \<^verbatim>\<open>{ n: get(n) for n in job.params }\<close>: the names in order,
  the first exception of \<^verbatim>\<open>get\<close> ends it.
\<close>

fun bind_comprehension ::
  "(string \<Rightarrow> exc + string) \<Rightarrow> string list \<Rightarrow> (string \<times> string) list
     \<Rightarrow> exc + (string \<times> string) list" where
  "bind_comprehension g [] acc = Inr acc"
| "bind_comprehension g (n # ns) acc =
     (case g n of Inl e \<Rightarrow> Inl e | Inr v \<Rightarrow> bind_comprehension g ns (AList.update n v acc))"

definition cond_bind ::
  "(string \<Rightarrow> 'b \<Rightarrow> exc + string) \<Rightarrow> 'j Job_scheme \<Rightarrow> (string \<rightharpoonup> string) \<Rightarrow> (string \<rightharpoonup> string)
     \<Rightarrow> 'b \<Rightarrow> exc + (string \<times> string) list" where
  "cond_bind template_expand job obj_args inst_args bind_args =
     bind_comprehension (get template_expand job obj_args inst_args bind_args) (params job) []"

section \<open>program.py\<close>

text \<open>
  \<^verbatim>\<open>pathlib.Path\<close> on a POSIX system, as the text the path stands for (what
  \<^verbatim>\<open>str\<close> and \<^verbatim>\<open>os.fspath\<close> give): the text is split at the slashes, empty
  components and components "." are dropped, a leading slash is kept (exactly two
  leading slashes are kept as two), and the empty path is ".".
\<close>

fun split_slash :: "string \<Rightarrow> string list" where
  "split_slash [] = [[]]"
| "split_slash (c # cs) =
     (if c = CHR ''/'' then [] # split_slash cs
      else (case split_slash cs of [] \<Rightarrow> [[c]] | p # ps \<Rightarrow> (c # p) # ps))"

fun join_slash :: "string list \<Rightarrow> string" where
  "join_slash [] = []"
| "join_slash [p] = p"
| "join_slash (p # q # ps) = p @ ''/'' @ join_slash (q # ps)"

definition Path :: "string \<Rightarrow> string" where
  "Path s =
     (let parts = [p \<leftarrow> split_slash s. p \<noteq> [] \<and> p \<noteq> ''.''];
          root = (if take 2 s = ''//'' \<and> take 3 s \<noteq> ''///'' then ''//''
                  else if take 1 s = ''/'' then ''/'' else [])
      in if parts = [] \<and> root = [] then ''.'' else root @ join_slash parts)"

text \<open>
  \<^verbatim>\<open>ProcessProgram.__init__(argv)\<close>: the arguments (strings already, so \<^verbatim>\<open>str\<close>
  leaves them) and the executable \<^verbatim>\<open>Path(argv[0])\<close>; \<^verbatim>\<open>argv[0]\<close> raises
  IndexError on an empty vector.
\<close>

definition ProcessProgram_init :: "string list \<Rightarrow> exc + ProcessProgram" where
  "ProcessProgram_init av =
     (case av of [] \<Rightarrow> Inl IndexError | a # _ \<Rightarrow> Inr \<lparr>argv = av, executable = Path a\<rparr>)"

text \<open>
  \<^verbatim>\<open>ShellCommandProgram.__init__(command)\<close> calls the parent constructor on
  \<^verbatim>\<open>["/bin/bash", "-c", command]\<close> and keeps the command.
\<close>

definition ShellCommandProgram_init :: "string \<Rightarrow> exc + ShellCommandProgram" where
  "ShellCommandProgram_init cmd =
     (case ProcessProgram_init [''/bin/bash'', ''-c'', cmd] of
        Inl e \<Rightarrow> Inl e
      | Inr p \<Rightarrow> Inr (ProcessProgram.extend p (ShellCommandProgram.fields cmd)))"

definition to_jso :: "'a ProcessProgram_scheme \<Rightarrow> (string \<times> string list) list" where
  "to_jso self = [(''argv'', argv self)]"

text \<open>
  The operating system, as \<^verbatim>\<open>start\<close> and \<^verbatim>\<open>wait\<close> meet it. A child is spawned from
  a request: the argument vector, the executable and what each of its standard streams
  is connected to. Once running it has a process id, writes data to its file
  descriptors 1 and 2 in some order and exits with a code.
\<close>

datatype stdio = File string | PIPE | STDOUT

record spawn_request =
  req_argv :: "string list"
  req_executable :: string
  req_stdin :: stdio
  req_stdout :: stdio
  req_stderr :: stdio

record child =
  pid :: int
  writes :: "(nat \<times> string) list"
  exit_code :: int

text \<open>
  The environment: host and user name, the text of a time (\<^verbatim>\<open>str\<close> of an ora
  time), \<^verbatim>\<open>open\<close> of a path (Some is the text of the OSError raised, None
  success) and \<^verbatim>\<open>asyncio.create_subprocess_exec\<close> (Inl is the text of the OSError).
\<close>

record os =
  gethostname :: string
  getuser :: string
  str_time :: "time \<Rightarrow> string"
  open_file :: "string \<Rightarrow> string option"
  create_subprocess_exec :: "spawn_request \<Rightarrow> string + child"

text \<open>\<^verbatim>\<open>asyncio.subprocess.Process\<close>: the request it was made from and the child.\<close>

record Process =
  request :: spawn_request
  the_child :: child

text \<open>
  \<^verbatim>\<open>proc.communicate()\<close> reads the pipes until the child exits and returns the pair
  (stdout, stderr), each None unless that stream is a pipe. A stderr redirected with
  STDOUT shares the pipe of stdout, so what the child writes to descriptor 2 arrives
  there, in the order written. Afterwards \<^verbatim>\<open>proc.returncode\<close> is the exit code.
\<close>

definition communicate :: "Process \<Rightarrow> string option \<times> string option" where
  "communicate proc =
     (let req = request proc; ws = writes (the_child proc)
      in ((if req_stdout req = PIPE
           then Some (concat (map snd
                  [w \<leftarrow> ws. fst w = 1 \<or> (fst w = 2 \<and> req_stderr req = STDOUT)]))
           else None),
          (if req_stderr req = PIPE
           then Some (concat (map snd [w \<leftarrow> ws. fst w = 2]))
           else None)))"

definition returncode :: "Process \<Rightarrow> int option" where
  "returncode proc = Some (exit_code (the_child proc))"

text \<open>
  \<^verbatim>\<open>ProcessProgram.start(run)\<close>. The run is updated in place before the child is
  spawned, so it is returned together with the result; an OSError of \<^verbatim>\<open>open\<close> or of
  the spawn becomes ProgramError.
\<close>

definition start ::
  "os \<Rightarrow> time \<Rightarrow> 'a ProcessProgram_scheme \<Rightarrow> Run \<Rightarrow> Run \<times> (exc + Process)" where
  "start env now self run =
     (let start_time = now;
          run' = run\<lparr>meta := dict_update (meta run)
                   [(''hostname'', Str (gethostname env)),
                    (''username'', Str (getuser env)),
                    (''start_time'', Str (str_time env start_time))]\<rparr>
      in case open_file env ''/dev/null'' of
           Some msg \<Rightarrow> (run', Inl (ProgramError msg))
         | None \<Rightarrow>
             (let stdin = File ''/dev/null'';
                  req = \<lparr>req_argv = argv self, req_executable = executable self,
                         req_stdin = stdin, req_stdout = PIPE, req_stderr = STDOUT\<rparr>
              in case create_subprocess_exec env req of
                   Inl msg \<Rightarrow> (run', Inl (ProgramError msg))
                 | Inr c \<Rightarrow> (run', Inr \<lparr>request = req, the_child = c\<rparr>)))"

text \<open>
  \<^verbatim>\<open>ProcessProgram.wait(run, proc)\<close>: the two assertions, the update of the run, and
  the return or the ProgramFailure by the return code.
\<close>

definition wait ::
  "os \<Rightarrow> time \<Rightarrow> 'a ProcessProgram_scheme \<Rightarrow> Run \<Rightarrow> Process \<Rightarrow> Run \<times> (exc + unit)" where
  "wait env now self run proc =
     (case communicate proc of (stdout, stderr) \<Rightarrow>
        (let end_time = str_time env now
         in if stderr \<noteq> None then (run, Inl AssertionError)
            else case returncode proc of
                   None \<Rightarrow> (run, Inl AssertionError)
                 | Some return_code \<Rightarrow>
                     (let run' = run\<lparr>meta := dict_update (meta run)
                                    [(''pid'', Num (pid (the_child proc))),
                                     (''return_code'', Num return_code),
                                     (''end_time'', Str end_time)],
                                  run_output := stdout\<rparr>
                      in if return_code = 0 then (run', Inr ())
                         else (run', Inl (ProgramFailure
                                 (''return code = '' @ str_int return_code))))))"

section \<open>apsis.py\<close>

subsection \<open>The state of the engine\<close>

text \<open>
  Run objects are shared between the engine, the run store, the timed queue and the
  completion callbacks, and are changed in place. The model keeps them in a heap: a
  reference is an address, \<open>heap\<close> gives the object at an address, and \<open>next_ref\<close>
  is the first address not yet allocated.
\<close>

type_synonym ref = nat

text \<open>
  What \<^verbatim>\<open>await run.program.start(run)\<close> does, as \<^verbatim>\<open>__start\<close> sees it: it returns
  the pair \<^verbatim>\<open>(running, coro)\<close>, of which \<open>running\<close> carries the meta and times
  observed; or it raises ProgramError with a message, meta, times and outputs; or it
  raises something else.
\<close>

datatype start_result =
    Start_returns "(string \<times> jso) list" "(string \<times> time option) list"
  | Start_ProgramError string "(string \<times> jso) list" "(string \<times> time option) list"
      "(string \<times> string) list"
  | Start_raises exc

text \<open>
  What \<^verbatim>\<open>future.result()\<close> does in the completion callback: it returns the success
  record (meta, times, outputs), or raises ProgramFailure or ProgramError (message, meta,
  times, outputs), or \<^verbatim>\<open>asyncio.CancelledError\<close>, or something else.
\<close>

datatype outcome =
    Result_success "(string \<times> jso) list" "(string \<times> time option) list"
      "(string \<times> string) list"
  | Raise_ProgramFailure string "(string \<times> jso) list" "(string \<times> time option) list"
      "(string \<times> string) list"
  | Raise_ProgramError string "(string \<times> jso) list" "(string \<times> time option) list"
      "(string \<times> string) list"
  | Raise_CancelledError
  | Raise_other exc

text \<open>
  An asyncio future is pending, cancelled, or finished (holding an exception or not).
\<close>

datatype future_state = PENDING | CANCELLED | FINISHED "exc option"

definition finished :: "outcome \<Rightarrow> future_state" where
  "finished oc =
     (case oc of
        Result_success m ts outs \<Rightarrow> FINISHED None
      | Raise_ProgramFailure msg m ts outs \<Rightarrow> FINISHED (Some (ProgramFailure msg))
      | Raise_ProgramError msg m ts outs \<Rightarrow> FINISHED (Some (ProgramError msg))
      | Raise_CancelledError \<Rightarrow> CANCELLED
      | Raise_other e \<Rightarrow> FINISHED (Some e))"

text \<open>The coroutines that apsis.py hands to \<^verbatim>\<open>asyncio.ensure_future\<close> to run later.\<close>

datatype coroutine = Coro_rerun ref "time option"

text \<open>
  The \<^verbatim>\<open>log.info\<close> calls of the modelled methods, with the values they format.
\<close>

datatype log_record =
    Info_canceled_waiting "run_id option"
  | Info_retry_max_count "run_id option"
  | Info_retry_max_delay "run_id option"
  | Info_rerun "run_id option" "time option"

text \<open>
  The engine and what it owns. Of the collaborators defined outside apsis.py the record
  holds the state that the code of apsis.py reads or changes through them:
  \<^item> \<open>jobs\<close>: the job catalog, by job id;
  \<^item> \<open>runs\<close>, \<open>next_run_id\<close>, \<open>run_db\<close>: the run store, that is the runs added, in
    order, the next id to issue, and the persisted copy of each run with the time of
    the update that wrote it;
  \<^item> \<open>output_db\<close>: the outputs persisted, in order;
  \<^item> \<open>scheduled\<close>: the timed queue;
  \<^item> \<open>running_tasks\<close>: the dict \<^verbatim>\<open>__running_tasks\<close>, from run id to future;
  \<^item> \<open>futures\<close>, \<open>next_future\<close>, \<open>callbacks\<close>: the futures created, and for each
    done-callback attached by \<^verbatim>\<open>__wait\<close> the future and the run of its closure;
  \<^item> \<open>loop_tasks\<close>: the coroutines given to \<^verbatim>\<open>ensure_future\<close> and not yet run;
  \<^item> \<open>clock\<close>, \<open>ticks\<close>: the successive readings of \<^verbatim>\<open>now()\<close> and how many
    have been taken;
  \<^item> \<open>log_records\<close>: what has been logged.
\<close>

record Apsis =
  heap :: "ref \<Rightarrow> Run"
  next_ref :: ref
  jobs :: "(string \<times> Job) list"
  runs :: "ref list"
  next_run_id :: run_id
  run_db :: "(run_id option \<times> Run \<times> time) list"
  output_db :: "((run_id option \<times> string) \<times> string) list"
  scheduled :: "(time \<times> ref) list"
  running_tasks :: "(run_id option \<times> nat) list"
  futures :: "nat \<Rightarrow> future_state"
  next_future :: nat
  callbacks :: "(nat \<times> ref) list"
  loop_tasks :: "coroutine list"
  clock :: "nat \<Rightarrow> time"
  ticks :: nat
  log_records :: "log_record list"

definition ora_now :: "Apsis \<Rightarrow> time \<times> Apsis" where
  "ora_now s = (clock s (ticks s), s\<lparr>ticks := Suc (ticks s)\<rparr>)"

definition info :: "log_record \<Rightarrow> Apsis \<Rightarrow> Apsis" where
  "info l s = s\<lparr>log_records := log_records s @ [l]\<rparr>"

definition ensure_future :: "coroutine \<Rightarrow> Apsis \<Rightarrow> Apsis" where
  "ensure_future c s = s\<lparr>loop_tasks := loop_tasks s @ [c]\<rparr>"

text \<open>\<^verbatim>\<open>Run(inst, rerun=rerun)\<close>: a new object on the heap.\<close>

definition Run_new :: "Instance \<Rightarrow> run_id option \<Rightarrow> Apsis \<Rightarrow> ref \<times> Apsis" where
  "Run_new i rr s =
     (next_ref s,
      s\<lparr>heap := (heap s)(next_ref s := Run_init i rr), next_ref := Suc (next_ref s)\<rparr>)"

subsection \<open>Collaborators\<close>

text \<open>
  Modelled from the spec: \<^verbatim>\<open>jobs.get_job(job_id)\<close>, the job catalog. A job id that
  is not in the catalog raises LookupError.
\<close>

definition Jobs_get_job :: "string \<Rightarrow> Apsis \<Rightarrow> exc + Job" where
  "Jobs_get_job j s =
     (case map_of (jobs s) j of None \<Rightarrow> Inl (LookupError j) | Some job \<Rightarrow> Inr job)"

text \<open>
  Modelled from the spec: \<^verbatim>\<open>runs.add(run)\<close> fails with DuplicateRun if the id of the
  run exists. Otherwise a run without id gets the next one, a run that is not a rerun
  becomes its own original (\<open>rerun\<close> is self for the original), and the run is stored.
\<close>

definition Runs_add :: "ref \<Rightarrow> Apsis \<Rightarrow> (exc + unit) \<times> Apsis" where
  "Runs_add r s =
     (let run = heap s r;
          i = (case run_id run of None \<Rightarrow> next_run_id s | Some i \<Rightarrow> i)
      in if run_id run \<noteq> None \<and> run_id run \<in> set (map (\<lambda>r'. run_id (heap s r')) (runs s))
         then (Inl DuplicateRun, s)
         else (Inr (),
               s\<lparr>heap := (heap s)(r := run\<lparr>run_id := Some i,
                              rerun := (case rerun run of None \<Rightarrow> Some i | Some x \<Rightarrow> Some x)\<rparr>),
                 runs := runs s @ [r],
                 next_run_id := max (next_run_id s) (Suc i)\<rparr>))"

text \<open>
  Modelled from the spec: \<^verbatim>\<open>runs.update(run, time)\<close> overwrites the persisted copy of
  the run.
\<close>

definition Runs_update :: "ref \<Rightarrow> time \<Rightarrow> Apsis \<Rightarrow> Apsis" where
  "Runs_update r time s =
     s\<lparr>run_db := AList.update (run_id (heap s r)) (heap s r, time) (run_db s)\<rparr>"

text \<open>
  Modelled from the spec: \<^verbatim>\<open>runs.query(rerun=x)\<close> selects the stored runs whose
  \<open>rerun\<close> is \<open>x\<close>.
\<close>

definition Runs_query_rerun :: "run_id option \<Rightarrow> Apsis \<Rightarrow> ref list" where
  "Runs_query_rerun x s = [r \<leftarrow> runs s. rerun (heap s r) = x]"

text \<open>Modelled from the spec: \<^verbatim>\<open>output_db.add\<close> appends to the outputs.\<close>

definition output_db_add :: "run_id option \<Rightarrow> string \<Rightarrow> string \<Rightarrow> Apsis \<Rightarrow> Apsis" where
  "output_db_add i output_id out s = s\<lparr>output_db := output_db s @ [((i, output_id), out)]\<rparr>"

text \<open>
  Modelled from the spec: the timed queue. \<^verbatim>\<open>schedule(time, run)\<close> inserts, and is a
  no-op if the run is present with the same time; \<^verbatim>\<open>unschedule(run)\<close> removes, and
  fails silently if the run is absent.
\<close>

definition ScheduledRuns_schedule :: "time \<Rightarrow> ref \<Rightarrow> Apsis \<Rightarrow> Apsis" where
  "ScheduledRuns_schedule time r s =
     (if (time, r) \<in> set (scheduled s) then s else s\<lparr>scheduled := scheduled s @ [(time, r)]\<rparr>)"

definition ScheduledRuns_unschedule :: "ref \<Rightarrow> Apsis \<Rightarrow> Apsis" where
  "ScheduledRuns_unschedule r s = s\<lparr>scheduled := [e \<leftarrow> scheduled s. snd e \<noteq> r]\<rparr>"

text \<open>
  \<^verbatim>\<open>run._transition(time, state, **kw_args)\<close> on the object at a reference: it
  raises, or changes the object.
\<close>

definition Run__transition ::
  "ref \<Rightarrow> time \<Rightarrow> STATE \<Rightarrow> (string \<times> jso) list \<Rightarrow> (string \<times> time option) list
     \<Rightarrow> string option \<Rightarrow> Apsis \<Rightarrow> exc + Apsis" where
  "Run__transition r time st m ts msg s =
     (case Run_transition time st m ts msg (heap s r) of
        Inl e \<Rightarrow> Inl e
      | Inr run \<Rightarrow> Inr (s\<lparr>heap := (heap s)(r := run)\<rparr>))"

subsection \<open>The methods of \<^verbatim>\<open>Apsis\<close>\<close>

text \<open>
  A method takes the engine and returns it changed, with Inl for an exception that
  leaves the method and Inr for its return value. The changes made before an exception
  stay.

  \<^verbatim>\<open>__rerun(run)\<close>. The branch for the maximal delay only logs: the code after it
  runs in either case.
\<close>

definition Apsis__rerun :: "ref \<Rightarrow> Apsis \<Rightarrow> (exc + unit) \<times> Apsis" where
  "Apsis__rerun r s =
     (let run = heap s r
      in case Jobs_get_job (job_id (inst run)) s of
           Inl e \<Rightarrow> (Inl e, s)
         | Inr job \<Rightarrow>
             if count (reruns job) = 0 then (Inr (), s)
             else
               (let rs = Runs_query_rerun (rerun run) s
                in if length rs > count (reruns job)
                   then (Inr (), info (Info_retry_max_count (rerun run)) s)
                   else
                     (case ora_now s of (time, s1) \<Rightarrow>
                        (case [r' \<leftarrow> rs. run_id (heap s1 r') = rerun run] of
                           [] \<Rightarrow> (Inl (ValueError ''not enough values to unpack''), s1)
                         | [main_run] \<Rightarrow>
                             (case map_of (times (heap s1 main_run)) ''schedule'' of
                                None \<Rightarrow> (Inl (KeyError ''schedule''), s1)
                              | Some sched \<Rightarrow>
                                  (let s2 = (if (case sched of
                                                   None \<Rightarrow> False
                                                 | Some t0 \<Rightarrow> time - t0 > max_delay (reruns job))
                                             then info (Info_retry_max_delay (rerun run)) s1
                                             else s1);
                                       rerun_time = time + delay (reruns job)
                                   in (Inr (), ensure_future (Coro_rerun r (Some rerun_time)) s2)))
                         | _ \<Rightarrow> (Inl (ValueError ''too many values to unpack''), s1)))))"

text \<open>
  \<^verbatim>\<open>_transition(run, state, *, outputs={}, **kw_args)\<close>, the keyword arguments being
  meta, times and message (empty, empty and None when a caller passes none). An
  exception of \<^verbatim>\<open>run._transition\<close> leaves the method before anything is persisted.
\<close>

definition Apsis_transition ::
  "ref \<Rightarrow> STATE \<Rightarrow> (string \<times> string) list \<Rightarrow> (string \<times> jso) list
     \<Rightarrow> (string \<times> time option) list \<Rightarrow> string option \<Rightarrow> Apsis \<Rightarrow> (exc + unit) \<times> Apsis" where
  "Apsis_transition r st outputs m ts msg s =
     (case ora_now s of (time, s1) \<Rightarrow>
        (case Run__transition r time st m ts msg s1 of
           Inl e \<Rightarrow> (Inl e, s1)
         | Inr s2 \<Rightarrow>
             (let s3 = fold (\<lambda>(output_id, out). output_db_add (run_id (heap s2 r)) output_id out)
                        outputs s2;
                  s4 = Runs_update r time s3
              in if st = STATE_failure then Apsis__rerun r s4 else (Inr (), s4))))"

text \<open>\<^verbatim>\<open>__get_program(run)\<close>.\<close>

definition Apsis__get_program :: "ref \<Rightarrow> Apsis \<Rightarrow> exc + ProcessProgram" where
  "Apsis__get_program r s =
     (let run = heap s r
      in case Jobs_get_job (job_id (inst run)) s of
           Inl e \<Rightarrow> Inl e
         | Inr job \<Rightarrow>
             Inr (Job.program job
                    (dict_update
                       [(''run_id'', case run_id run of None \<Rightarrow> ''None'' | Some i \<Rightarrow> str_nat i),
                        (''job_id'', job_id (inst run))]
                       (args (inst run)))))"

text \<open>
  \<^verbatim>\<open>__wait(run, future)\<close> stores the future under the id of the run and attaches
  the callback; the callback \<^verbatim>\<open>done\<close> is next.
\<close>

definition Apsis__wait :: "ref \<Rightarrow> nat \<Rightarrow> Apsis \<Rightarrow> Apsis" where
  "Apsis__wait r future s =
     s\<lparr>running_tasks := AList.update (run_id (heap s r)) future (running_tasks s),
       callbacks := callbacks s @ [(future, r)]\<rparr>"

definition del_running_task :: "ref \<Rightarrow> (exc + unit) \<times> Apsis \<Rightarrow> (exc + unit) \<times> Apsis" where
  "del_running_task r res =
     (case res of
        (Inl e, s) \<Rightarrow> (Inl e, s)
      | (Inr u, s) \<Rightarrow>
          (case dict_del (run_id (heap s r)) (running_tasks s) of
             None \<Rightarrow> (Inl (KeyError ''run_id''), s)
           | Some d \<Rightarrow> (Inr (), s\<lparr>running_tasks := d\<rparr>)))"

text \<open>
  The callback \<^verbatim>\<open>done(future)\<close> of \<^verbatim>\<open>__wait\<close>, for the run \<open>r\<close> of its closure
  and what \<^verbatim>\<open>future.result()\<close> does. On CancelledError it logs and returns; the
  \<^verbatim>\<open>del\<close> of the last line is reached from the three transitions only.
\<close>

definition Apsis__wait_done :: "ref \<Rightarrow> outcome \<Rightarrow> Apsis \<Rightarrow> (exc + unit) \<times> Apsis" where
  "Apsis__wait_done r oc s =
     (case oc of
        Raise_CancelledError \<Rightarrow> (Inr (), info (Info_canceled_waiting (run_id (heap s r))) s)
      | Raise_other e \<Rightarrow> (Inl e, s)
      | Raise_ProgramFailure msg m ts outs \<Rightarrow>
          del_running_task r (Apsis_transition r STATE_failure outs m ts (Some msg) s)
      | Raise_ProgramError msg m ts outs \<Rightarrow>
          del_running_task r (Apsis_transition r STATE_error outs m ts (Some msg) s)
      | Result_success m ts outs \<Rightarrow>
          del_running_task r (Apsis_transition r STATE_success outs m ts None s))"

text \<open>
  \<^verbatim>\<open>__start(run)\<close>, with what the start of the program does. On success the
  coroutine becomes a new pending future.
\<close>

definition Apsis__start :: "ref \<Rightarrow> start_result \<Rightarrow> Apsis \<Rightarrow> (exc + unit) \<times> Apsis" where
  "Apsis__start r sr s =
     (case (if program (heap s r) = None
            then (case Apsis__get_program r s of
                    Inl e \<Rightarrow> Inl e
                  | Inr p \<Rightarrow> Inr (s\<lparr>heap := (heap s)(r := (heap s r)\<lparr>program := Some p\<rparr>)\<rparr>))
            else Inr s) of
        Inl e \<Rightarrow> (Inl e, s)
      | Inr s1 \<Rightarrow>
          (case sr of
             Start_ProgramError msg m ts outs \<Rightarrow>
               Apsis_transition r STATE_error outs m ts (Some msg) s1
           | Start_raises e \<Rightarrow> (Inl e, s1)
           | Start_returns m ts \<Rightarrow>
               (case Apsis_transition r STATE_running [] m ts None s1 of
                  (Inl e, s2) \<Rightarrow> (Inl e, s2)
                | (Inr u, s2) \<Rightarrow>
                    (let future = next_future s2;
                         s3 = s2\<lparr>futures := (futures s2)(future := PENDING),
                                 next_future := Suc future\<rparr>
                     in (Inr (), Apsis__wait r future s3)))))"

text \<open>The API: \<^verbatim>\<open>schedule\<close>, \<^verbatim>\<open>cancel\<close>, \<^verbatim>\<open>start\<close>, \<^verbatim>\<open>rerun\<close>.\<close>

definition Apsis_schedule ::
  "time option \<Rightarrow> ref \<Rightarrow> start_result \<Rightarrow> Apsis \<Rightarrow> (exc + unit) \<times> Apsis" where
  "Apsis_schedule time r sr s =
     (case Runs_add r s of
        (Inl e, s1) \<Rightarrow> (Inl e, s1)
      | (Inr u, s1) \<Rightarrow>
          (case time of
             None \<Rightarrow> Apsis__start r sr s1
           | Some t \<Rightarrow>
               Apsis_transition r STATE_scheduled [] [] [(''schedule'', Some t)] None
                 (ScheduledRuns_schedule t r s1)))"

definition Apsis_cancel :: "ref \<Rightarrow> Apsis \<Rightarrow> (exc + unit) \<times> Apsis" where
  "Apsis_cancel r s =
     Apsis_transition r STATE_error [] [] [] (Some ''cancelled'') (ScheduledRuns_unschedule r s)"

definition Apsis_start :: "ref \<Rightarrow> start_result \<Rightarrow> Apsis \<Rightarrow> (exc + unit) \<times> Apsis" where
  "Apsis_start r sr s = Apsis__start r sr (ScheduledRuns_unschedule r s)"

definition Apsis_rerun ::
  "ref \<Rightarrow> time option \<Rightarrow> start_result \<Rightarrow> Apsis \<Rightarrow> (exc + ref) \<times> Apsis" where
  "Apsis_rerun r time sr s =
     (let run = heap s r;
          s1 = info (Info_rerun (run_id run) time) s;
          rerun' = (if rerun run = None then run_id run else rerun run)
      in case Run_new (inst run) rerun' s1 of (new_run, s2) \<Rightarrow>
           (case Apsis_schedule time new_run sr s2 of
              (Inl e, s3) \<Rightarrow> (Inl e, s3)
            | (Inr u, s3) \<Rightarrow> (Inr new_run, s3)))"

subsection \<open>The engine at work\<close>

text \<open>
  The engine as \<^verbatim>\<open>__init__\<close> leaves it over an empty database, with a job catalog
  and a clock: nothing is restored or reattached.
\<close>

definition Apsis_init :: "(string \<times> Job) list \<Rightarrow> (nat \<Rightarrow> time) \<Rightarrow> Apsis" where
  "Apsis_init js clk =
     \<lparr>heap = (\<lambda>r. Run_init \<lparr>job_id = [], args = []\<rparr> None), next_ref = 0, jobs = js,
      runs = [], next_run_id = 0, run_db = [], output_db = [], scheduled = [],
      running_tasks = [], futures = (\<lambda>f. PENDING), next_future = 0, callbacks = [],
      loop_tasks = [], clock = clk, ticks = 0, log_records = []\<rparr>"

text \<open>
  What makes the engine act when runs are rerun by policy only:
  \<^item> the scheduler makes a run of an instance and calls \<^verbatim>\<open>schedule(time, run)\<close>;
  \<^item> the timed queue releases a run it holds: it removes the run and calls
    \<^verbatim>\<open>__start(run)\<close>;
  \<^item> a pending future completes and its done-callbacks run;
  \<^item> the event loop runs the oldest coroutine given to \<^verbatim>\<open>ensure_future\<close>.
  Each comes with what the program start or the future does then. The order of the
  events is free. \<^verbatim>\<open>__start\<close> suspends while the program starts; the run it starts is
  then in no queue and has no future, so no other event acts on it, and the model takes
  \<^verbatim>\<open>__start\<close> as one step.
\<close>

datatype event =
    Ev_schedule Instance "time option" start_result
  | Ev_release ref start_result
  | Ev_done nat outcome
  | Ev_task start_result

definition step :: "event \<Rightarrow> Apsis \<Rightarrow> Apsis" where
  "step ev s =
     (case ev of
        Ev_schedule i time sr \<Rightarrow>
          (case Run_new i None s of (r, s1) \<Rightarrow> snd (Apsis_schedule time r sr s1))
      | Ev_release r sr \<Rightarrow>
          (if r \<in> snd ` set (scheduled s)
           then snd (Apsis__start r sr (ScheduledRuns_unschedule r s))
           else s)
      | Ev_done future oc \<Rightarrow>
          (if future < next_future s \<and> futures s future = PENDING
           then fold (\<lambda>r s'. snd (Apsis__wait_done r oc s'))
                  (map snd [c \<leftarrow> callbacks s. fst c = future])
                  (s\<lparr>futures := (futures s)(future := finished oc)\<rparr>)
           else s)
      | Ev_task sr \<Rightarrow>
          (case loop_tasks s of
             [] \<Rightarrow> s
           | Coro_rerun r time # rest \<Rightarrow> snd (Apsis_rerun r time sr (s\<lparr>loop_tasks := rest\<rparr>))))"

definition run_events :: "event list \<Rightarrow> Apsis \<Rightarrow> Apsis" where
  "run_events evs s = fold step evs s"

text \<open>
  The rerun family of an id: the stored runs whose \<open>rerun\<close> is that id. The bound of
  the rerun policy on the family of a run: the count of its job and one more, and one
  when its job is not in the catalog.
\<close>

definition family :: "Apsis \<Rightarrow> run_id option \<Rightarrow> ref list" where
  "family s f = Runs_query_rerun f s"

definition policy_bound :: "Apsis \<Rightarrow> ref \<Rightarrow> nat" where
  "policy_bound s r =
     (case map_of (jobs s) (job_id (inst (heap s r))) of
        None \<Rightarrow> 1
      | Some job \<Rightarrow> count (reruns job) + 1)"

subsection \<open>What the events keep true\<close>

text \<open>
  The fields of a stored run that no transition changes, read through the heap.
\<close>

definition run_id_of :: "Apsis \<Rightarrow> ref \<Rightarrow> run_id option" where
  "run_id_of s r = run_id (heap s r)"

definition rerun_of :: "Apsis \<Rightarrow> ref \<Rightarrow> run_id option" where
  "rerun_of s r = rerun (heap s r)"

definition inst_of :: "Apsis \<Rightarrow> ref \<Rightarrow> Instance" where
  "inst_of s r = inst (heap s r)"

definition coro_ref :: "coroutine \<Rightarrow> ref" where
  "coro_ref c = (case c of Coro_rerun r time \<Rightarrow> r)"

text \<open>
  The pending reruns of a family: the coroutines not yet run that will add a run to it.
  The weight of a family: the entries of the timed queue, the done-callbacks of pending
  futures and the pending reruns that belong to it. A family of weight 0 is at rest:
  nothing will happen to its runs.
\<close>

definition pending_reruns :: "Apsis \<Rightarrow> run_id option \<Rightarrow> nat" where
  "pending_reruns s f = length [c \<leftarrow> loop_tasks s. rerun_of s (coro_ref c) = f]"

definition weight :: "Apsis \<Rightarrow> run_id option \<Rightarrow> nat" where
  "weight s f =
     length [e \<leftarrow> scheduled s. rerun_of s (snd e) = f]
     + length [c \<leftarrow> callbacks s. futures s (fst c) = PENDING \<and> rerun_of s (snd c) = f]
     + pending_reruns s f"

definition stored :: "Apsis \<Rightarrow> bool" where
  "stored s \<longleftrightarrow>
     (\<forall>r\<in>set (runs s). r < next_ref s \<and>
        (\<exists>i. run_id_of s r = Some i \<and> i < next_run_id s) \<and>
        (\<exists>f. rerun_of s r = Some f \<and> f < next_run_id s))"

definition referenced :: "Apsis \<Rightarrow> bool" where
  "referenced s \<longleftrightarrow>
     snd ` set (scheduled s) \<subseteq> set (runs s) \<and>
     snd ` set (callbacks s) \<subseteq> set (runs s) \<and>
     coro_ref ` set (loop_tasks s) \<subseteq> set (runs s) \<and>
     (\<forall>c\<in>set (callbacks s). fst c < next_future s) \<and>
     distinct (map fst (callbacks s))"

definition families :: "Apsis \<Rightarrow> bool" where
  "families s \<longleftrightarrow>
     (\<forall>r\<in>set (runs s). \<exists>orig\<in>set (runs s).
        run_id_of s orig = rerun_of s r \<and> rerun_of s orig = rerun_of s r) \<and>
     (\<forall>r\<in>set (runs s). \<forall>r'\<in>set (runs s).
        rerun_of s r = rerun_of s r' \<longrightarrow> inst_of s r = inst_of s r')"

definition bounded :: "Apsis \<Rightarrow> bool" where
  "bounded s \<longleftrightarrow>
     (\<forall>f. weight s f \<le> 1) \<and>
     (\<forall>r\<in>set (runs s).
        length (family s (rerun_of s r)) + pending_reruns s (rerun_of s r) \<le> policy_bound s r)"

definition invariant :: "Apsis \<Rightarrow> bool" where
  "invariant s \<longleftrightarrow> stored s \<and> referenced s \<and> families s \<and> bounded s"

text \<open>
  Two states of the engine that differ in nothing the invariant reads: the same runs
  with the same ids, originals and instances, the same queue, callbacks, futures,
  coroutines and catalog.
\<close>

definition unchanged :: "Apsis \<Rightarrow> Apsis \<Rightarrow> bool" where
  "unchanged s s' \<longleftrightarrow>
     run_id_of s' = run_id_of s \<and> rerun_of s' = rerun_of s \<and> inst_of s' = inst_of s \<and>
     runs s' = runs s \<and> next_ref s' = next_ref s \<and> next_run_id s' = next_run_id s \<and>
     scheduled s' = scheduled s \<and> callbacks s' = callbacks s \<and> futures s' = futures s \<and>
     next_future s' = next_future s \<and> loop_tasks s' = loop_tasks s \<and> jobs s' = jobs s"

text \<open>A stored run whose family is at rest.\<close>

definition at_rest :: "Apsis \<Rightarrow> ref \<Rightarrow> bool" where
  "at_rest s r \<longleftrightarrow> r \<in> set (runs s) \<and> weight s (rerun_of s r) = 0"

text \<open>
  Two states of the engine with the same stored runs, ids, originals and instances, and
  the same catalog.
\<close>

definition same_runs :: "Apsis \<Rightarrow> Apsis \<Rightarrow> bool" where
  "same_runs s s' \<longleftrightarrow>
     run_id_of s' = run_id_of s \<and> rerun_of s' = rerun_of s \<and> inst_of s' = inst_of s \<and>
     runs s' = runs s \<and> jobs s' = jobs s"

section \<open>Concrete inputs\<close>

text \<open>
  An environment in which the spawn of /bin/false succeeds and every other spawn fails:
  the child has process id 42, writes "out" to descriptor 1, then "err" to descriptor 2,
  and exits with code 7.
\<close>

definition example_child :: child where
  "example_child = \<lparr>pid = 42, writes = [(1, ''out''), (2, ''err'')], exit_code = 7\<rparr>"

definition example_os :: os where
  "example_os =
     \<lparr>gethostname = ''host'', getuser = ''user'', str_time = str_int,
      open_file = (\<lambda>path. None),
      create_subprocess_exec =
        (\<lambda>req. if req_executable req = ''/bin/false'' \<and> req_argv req = [''/bin/false'']
               then Inr example_child else Inl ''No such file or directory'')\<rparr>"

definition example_program :: ProcessProgram where
  "example_program = \<lparr>argv = [''/bin/false''], executable = ''/bin/false''\<rparr>"

definition example_run :: Run where
  "example_run = Run_init \<lparr>job_id = ''j1'', args = []\<rparr> None"

text \<open>A template expansion that appends the bind argument to the template.\<close>

definition example_expand :: "string \<Rightarrow> string \<Rightarrow> exc + string" where
  "example_expand template bind_args = Inr (template @ bind_args)"

definition example_job :: Job where
  "example_job =
     \<lparr>Job.job_id = ''j1'', params = [''a'', ''b''], program = (\<lambda>ctx. example_program),
      reruns = \<lparr>count = 1, delay = 5, max_delay = 10\<rparr>\<rparr>"

text \<open>
  Engines built by events from the empty engine with the catalog of \<open>example_job\<close>
  (rerun policy: count 1, delay 5, max_delay 10). In \<open>example_running\<close> a run of the
  job was started at once and is running, the clock reading 0, 1, 2, ... In
  \<open>example_scheduled\<close> a run was scheduled for time 60, and in \<open>example_cancelled\<close>
  it was then cancelled. In
  \<open>example_failed\<close> a run was scheduled for time 0, released and started, and its
  program failed; there the clock reads 0, 1000, 2000, ...
\<close>

definition example_inst :: Instance where
  "example_inst = \<lparr>job_id = ''j1'', args = []\<rparr>"

definition example_running :: Apsis where
  "example_running =
     run_events [Ev_schedule example_inst None (Start_returns [] [])]
       (Apsis_init [(''j1'', example_job)] (\<lambda>n. int n))"

definition example_scheduled :: Apsis where
  "example_scheduled =
     run_events [Ev_schedule example_inst (Some 60) (Start_returns [] [])]
       (Apsis_init [(''j1'', example_job)] (\<lambda>n. int n))"

definition example_cancelled :: Apsis where
  "example_cancelled = snd (Apsis_cancel 0 example_scheduled)"

definition example_failed :: Apsis where
  "example_failed =
     run_events
       [Ev_schedule example_inst (Some 0) (Start_returns [] []),
        Ev_release 0 (Start_returns [] []),
        Ev_done 0 (Raise_ProgramFailure ''return code = 7'' [] [] [])]
       (Apsis_init [(''j1'', example_job)] (\<lambda>n. 1000 * int n))"

text \<open>
  In \<open>example_rerun\<close> the events of \<open>example_failed\<close> are followed by the run of the
  rerun that the failure handed to the event loop.
\<close>

definition example_rerun :: Apsis where
  "example_rerun =
     run_events
       [Ev_schedule example_inst (Some 0) (Start_returns [] []),
        Ev_release 0 (Start_returns [] []),
        Ev_done 0 (Raise_ProgramFailure ''return code = 7'' [] [] []),
        Ev_task (Start_returns [] [])]
       (Apsis_init [(''j1'', example_job)] (\<lambda>n. 1000 * int n))"


definition example_formatter :: "string \<Rightarrow> exc + string" where
  "example_formatter r =
     (if r = ''bad'' then Inl (TypeError ''%d format: a number is required'') else Inr r)"

section \<open>Dictionaries\<close>

lemma map_of_dict_update: "map_of (dict_update d e) = map_of d ++ map_of (rev e)"
  unfolding dict_update_def
proof (induction e arbitrary: d)
  case Nil
  show ?case by simp
next
  case (Cons a e)
  obtain k v where a: "a = (k, v)" by (cases a)
  have "map_of (fold (\<lambda>(k, v). AList.update k v) e (AList.update k v d))
          = map_of (AList.update k v d) ++ map_of (rev e)"
    by (rule Cons.IH)
  also have "\<dots> = map_of d ++ map_of (rev e @ [(k, v)])"
  proof -
    have "map_of (rev e @ [(k, v)]) = [k \<mapsto> v] ++ map_of (rev e)"
      by (simp add: map_of_append)
    moreover have "map_of d ++ ([k \<mapsto> v] ++ map_of (rev e)) = (map_of d)(k \<mapsto> v) ++ map_of (rev e)"
      by (simp add: map_add_assoc [symmetric])
    ultimately show ?thesis by (simp add: update_conv')
  qed
  finally show ?case by (simp add: a)
qed

section \<open>Theorems: lib/api.py\<close>

lemma to_bool_True: "to_bool s = Inr True \<longleftrightarrow> s \<in> {''True'', ''true'', ''T'', ''t''}"
  unfolding to_bool_def by (simp split: if_splits)

lemma to_bool_False: "to_bool s = Inr False \<longleftrightarrow> s \<in> {''False'', ''false'', ''F'', ''f''}"
  unfolding to_bool_def by (simp split: if_splits)

lemma to_bool_other:
  "s \<notin> {''True'', ''true'', ''T'', ''t'', ''False'', ''false'', ''F'', ''f''}
     \<Longrightarrow> to_bool s = Inl (ValueError (''unknown bool: '' @ s))"
  unfolding to_bool_def by simp

text \<open>
  C8. For every string \<open>s\<close>, \<open>to_bool\<close> returns True exactly when \<open>s\<close> is one of
  "True", "true", "T", "t", returns False exactly when \<open>s\<close> is one of "False", "false",
  "F", "f", and raises ValueError for every other string: it returns a value on these
  eight strings only.
\<close>

theorem to_bool_total_on_eight:
  "(to_bool s = Inr True \<longleftrightarrow> s \<in> {''True'', ''true'', ''T'', ''t''}) \<and>
   (to_bool s = Inr False \<longleftrightarrow> s \<in> {''False'', ''false'', ''F'', ''f''}) \<and>
   (s \<notin> {''True'', ''true'', ''T'', ''t'', ''False'', ''false'', ''F'', ''f''}
      \<longrightarrow> to_bool s = Inl (ValueError (''unknown bool: '' @ s)))"
  by (intro conjI impI to_bool_True to_bool_False to_bool_other)

theorem to_bool_total_on_eight_witness:
  "to_bool ''t'' = Inr True \<and> to_bool ''F'' = Inr False \<and>
   to_bool ''yes'' = Inl (ValueError ''unknown bool: yes'')"
proof -
  have "to_bool ''t'' = Inr True"
    using to_bool_total_on_eight [of "''t''"] by simp
  moreover have "to_bool ''F'' = Inr False"
    using to_bool_total_on_eight [of "''F''"] by simp
  moreover have "to_bool ''yes'' = Inl (ValueError ''unknown bool: yes'')"
    using to_bool_total_on_eight [of "''yes''"] by simp
  ultimately show ?thesis by (intro conjI)
qed

section \<open>Theorems: QueueHandler\<close>

lemma emit_loop_map:
  "emit_loop data qs =
     Inr (map (\<lambda>q. if full q then q else q\<lparr>items := items q @ [data]\<rparr>) qs)"
  by (induction qs) (simp_all add: put_nowait_def)

text \<open>
  C10, as stated, fails: \<open>emit\<close> can raise. The formatter raises TypeError on the
  record "bad"; \<open>emit\<close> then raises it too, and the registered queue receives nothing.
\<close>

theorem emit_raises_with_formatter:
  "emit \<lparr>formatter = example_formatter, queues = [\<lparr>maxsize = 0, items = []\<rparr>]\<rparr> ''bad''
     = Inl (TypeError ''%d format: a number is required'')"
  by (simp add: emit_def example_formatter_def)

text \<open>
  C10, amended. \<open>emit\<close> formats the record first, outside the \<^verbatim>\<open>try\<close>. When the
  formatter raises, \<open>emit\<close> raises the same exception and no queue receives anything.
  When the formatter returns, \<open>emit\<close> returns normally: every registered queue that is
  not full has received the formatted record at its end, and every full queue is as it
  was (the record is dropped for that queue only; the queues after it are still served).
\<close>

theorem emit_delivers_unless_formatter_raises:
  "(\<forall>data. formatter h r = Inr data \<longrightarrow>
      emit h r =
        Inr (h\<lparr>queues :=
               map (\<lambda>q. if full q then q else q\<lparr>items := items q @ [data]\<rparr>) (queues h)\<rparr>)) \<and>
   (\<forall>e. formatter h r = Inl e \<longrightarrow> emit h r = Inl e)"
  by (simp add: emit_def emit_loop_map)

theorem emit_delivers_unless_formatter_raises_witness:
  "example_formatter ''rec'' = Inr ''rec'' \<and>
   emit \<lparr>formatter = example_formatter, queues = [\<lparr>maxsize = 0, items = []\<rparr>,
          \<lparr>maxsize = 1, items = [''old'']\<rparr>, \<lparr>maxsize = 2, items = [''old'']\<rparr>]\<rparr> ''rec''
     = Inr \<lparr>formatter = example_formatter, queues = [\<lparr>maxsize = 0, items = [''rec'']\<rparr>,
          \<lparr>maxsize = 1, items = [''old'']\<rparr>, \<lparr>maxsize = 2, items = [''old'', ''rec'']\<rparr>]\<rparr> \<and>
   example_formatter ''bad'' = Inl (TypeError ''%d format: a number is required'') \<and>
   emit \<lparr>formatter = example_formatter, queues = [\<lparr>maxsize = 0, items = []\<rparr>,
          \<lparr>maxsize = 1, items = [''old'']\<rparr>, \<lparr>maxsize = 2, items = [''old'']\<rparr>]\<rparr> ''bad''
     = Inl (TypeError ''%d format: a number is required'')"
proof -
  let ?h = "\<lparr>formatter = example_formatter, queues = [\<lparr>maxsize = 0, items = []\<rparr>,
          \<lparr>maxsize = 1, items = [''old'']\<rparr>, \<lparr>maxsize = 2, items = [''old'']\<rparr>]\<rparr>"
  have f: "example_formatter ''rec'' = Inr ''rec''"
    "example_formatter ''bad'' = Inl (TypeError ''%d format: a number is required'')"
    by (simp_all add: example_formatter_def)
  have "emit ?h ''rec'' =
        Inr (?h\<lparr>queues :=
               map (\<lambda>q. if full q then q else q\<lparr>items := items q @ [''rec'']\<rparr>) (queues ?h)\<rparr>)"
    using emit_delivers_unless_formatter_raises [of ?h "''rec''"] f(1) by simp
  moreover have "emit ?h ''bad'' = Inl (TypeError ''%d format: a number is required'')"
    using emit_delivers_unless_formatter_raises [of ?h "''bad''"] f(2) by simp
  ultimately show ?thesis
    using f by (simp add: full_def)
qed

section \<open>Theorems: program.py\<close>

lemma Path_bin_bash: "Path ''/bin/bash'' = ''/bin/bash''"
  by (simp add: Path_def)

lemma ShellCommandProgram_init_eq:
  "ShellCommandProgram_init cmd =
     Inr \<lparr>argv = [''/bin/bash'', ''-c'', cmd], executable = ''/bin/bash'', command = cmd\<rparr>"
  by (simp add: ShellCommandProgram_init_def ProcessProgram_init_def ProcessProgram.extend_def
      ShellCommandProgram.fields_def Path_bin_bash)

text \<open>
  C5, as stated, fails: the program built from the shell string "exit 0" is not the
  Process program of the vector ["/bin/sh", "-c", "exit 0"].
\<close>

theorem shell_command_is_not_bin_sh:
  "map_sum id ProcessProgram.truncate (ShellCommandProgram_init ''exit 0'')
     \<noteq> ProcessProgram_init [''/bin/sh'', ''-c'', ''exit 0'']"
  by (simp add: ShellCommandProgram_init_eq ProcessProgram_init_def ProcessProgram.truncate_def)

text \<open>
  C5, amended. A ShellCommand program built from the shell string \<open>cmd\<close> is, seen as
  a Process program, the one constructed with the vector ["/bin/bash", "-c", cmd]; it
  keeps \<open>cmd\<close> as its command, and \<open>start\<close>, \<open>wait\<close> and \<open>to_jso\<close> behave on it as
  on that Process program.
\<close>

theorem shell_command_is_bin_bash:
  "\<exists>sp p. ShellCommandProgram_init cmd = Inr sp \<and>
          ProcessProgram_init [''/bin/bash'', ''-c'', cmd] = Inr p \<and>
          ProcessProgram.truncate sp = p \<and> command sp = cmd \<and>
          start env now sp run = start env now p run \<and>
          wait env now' sp run proc = wait env now' p run proc \<and>
          to_jso sp = to_jso p"
proof (intro exI conjI)
  show "ShellCommandProgram_init cmd =
          Inr \<lparr>argv = [''/bin/bash'', ''-c'', cmd], executable = ''/bin/bash'', command = cmd\<rparr>"
    by (rule ShellCommandProgram_init_eq)
  show "ProcessProgram_init [''/bin/bash'', ''-c'', cmd] =
          Inr \<lparr>argv = [''/bin/bash'', ''-c'', cmd], executable = ''/bin/bash''\<rparr>"
    by (simp add: ProcessProgram_init_def Path_bin_bash)
  show "ProcessProgram.truncate
          \<lparr>argv = [''/bin/bash'', ''-c'', cmd], executable = ''/bin/bash'', command = cmd\<rparr>
        = \<lparr>argv = [''/bin/bash'', ''-c'', cmd], executable = ''/bin/bash''\<rparr>"
    by (simp add: ProcessProgram.truncate_def)
  show "start env now
          \<lparr>argv = [''/bin/bash'', ''-c'', cmd], executable = ''/bin/bash'', command = cmd\<rparr> run
        = start env now \<lparr>argv = [''/bin/bash'', ''-c'', cmd], executable = ''/bin/bash''\<rparr> run"
    by (simp add: start_def Let_def split: option.splits sum.splits)
  show "wait env now'
          \<lparr>argv = [''/bin/bash'', ''-c'', cmd], executable = ''/bin/bash'', command = cmd\<rparr> run proc
        = wait env now' \<lparr>argv = [''/bin/bash'', ''-c'', cmd], executable = ''/bin/bash''\<rparr> run proc"
    by (simp add: wait_def Let_def split: option.splits sum.splits prod.splits)
  show "to_jso \<lparr>argv = [''/bin/bash'', ''-c'', cmd], executable = ''/bin/bash'', command = cmd\<rparr>
        = to_jso \<lparr>argv = [''/bin/bash'', ''-c'', cmd], executable = ''/bin/bash''\<rparr>"
    by (simp add: to_jso_def)
qed simp

lemma start_Inr:
  assumes "start env now self run = (run', Inr proc)"
  shows "run' = run\<lparr>meta := dict_update (meta run)
                   [(''hostname'', Str (gethostname env)),
                    (''username'', Str (getuser env)),
                    (''start_time'', Str (str_time env now))]\<rparr>"
    and "request proc = \<lparr>req_argv = argv self, req_executable = executable self,
                         req_stdin = File ''/dev/null'', req_stdout = PIPE, req_stderr = STDOUT\<rparr>"
    and "create_subprocess_exec env (request proc) = Inr (the_child proc)"
  using assms
  by (auto simp: start_def Let_def split: option.splits sum.splits)

lemma communicate_merged:
  assumes "req_stdout (request proc) = PIPE" and "req_stderr (request proc) = STDOUT"
  shows "communicate proc =
           (Some (concat (map snd [w \<leftarrow> writes (the_child proc). fst w = 1 \<or> fst w = 2])), None)"
  using assms by (simp add: communicate_def Let_def)

text \<open>
  C6. When \<open>start\<close> returns a process, that process is the child the operating
  system spawned for the request of \<open>start\<close>: the arguments and the executable of the
  program, the file /dev/null as stdin, a pipe as stdout and stderr sent to the same
  pipe. What the child writes to either descriptor is read back as the one captured
  output, which \<open>wait\<close> stores in the run; \<open>wait\<close> returns normally exactly when the
  exit code of the child is 0 and raises ProgramFailure for every other exit code.
\<close>

theorem child_process_io_and_exit:
  assumes "start env now self run = (run', Inr proc)"
  shows "create_subprocess_exec env (request proc) = Inr (the_child proc) \<and>
         req_argv (request proc) = argv self \<and>
         req_executable (request proc) = executable self \<and>
         req_stdin (request proc) = File ''/dev/null'' \<and>
         req_stdout (request proc) = PIPE \<and> req_stderr (request proc) = STDOUT \<and>
         communicate proc =
           (Some (concat (map snd [w \<leftarrow> writes (the_child proc). fst w = 1 \<or> fst w = 2])), None) \<and>
         run_output (fst (wait env now' self run' proc)) =
           Some (concat (map snd [w \<leftarrow> writes (the_child proc). fst w = 1 \<or> fst w = 2])) \<and>
         (snd (wait env now' self run' proc) = Inr () \<longleftrightarrow> exit_code (the_child proc) = 0) \<and>
         (exit_code (the_child proc) \<noteq> 0 \<longrightarrow>
            snd (wait env now' self run' proc) =
              Inl (ProgramFailure (''return code = '' @ str_int (exit_code (the_child proc)))))"
proof -
  have sp: "create_subprocess_exec env (request proc) = Inr (the_child proc)"
    by (rule start_Inr(3) [OF assms])
  have req: "req_argv (request proc) = argv self" "req_executable (request proc) = executable self"
    "req_stdin (request proc) = File ''/dev/null''"
    "req_stdout (request proc) = PIPE" "req_stderr (request proc) = STDOUT"
    using start_Inr(2) [OF assms] by simp_all
  have com: "communicate proc =
           (Some (concat (map snd [w \<leftarrow> writes (the_child proc). fst w = 1 \<or> fst w = 2])), None)"
    using req(4,5) by (intro communicate_merged)
  have out: "run_output (fst (wait env now' self run' proc)) =
           Some (concat (map snd [w \<leftarrow> writes (the_child proc). fst w = 1 \<or> fst w = 2]))"
    by (simp add: wait_def com returncode_def Let_def)
  have ok: "snd (wait env now' self run' proc) = Inr () \<longleftrightarrow> exit_code (the_child proc) = 0"
    by (simp add: wait_def com returncode_def Let_def)
  have bad: "exit_code (the_child proc) \<noteq> 0 \<longrightarrow>
            snd (wait env now' self run' proc) =
              Inl (ProgramFailure (''return code = '' @ str_int (exit_code (the_child proc))))"
    by (simp add: wait_def com returncode_def Let_def)
  from sp req com out ok bad show ?thesis by (intro conjI)
qed

lemma example_os_sel:
  "gethostname example_os = ''host''" "getuser example_os = ''user''"
  "str_time example_os = str_int"
  "create_subprocess_exec example_os
     \<lparr>req_argv = [''/bin/false''], req_executable = ''/bin/false'',
      req_stdin = File ''/dev/null'', req_stdout = PIPE, req_stderr = STDOUT\<rparr> = Inr example_child"
  by (simp_all add: example_os_def)

lemma example_start:
  "start example_os 0 example_program example_run =
     (example_run\<lparr>meta := [(''hostname'', Str ''host''), (''username'', Str ''user''),
                           (''start_time'', Str ''0'')]\<rparr>,
      Inr \<lparr>request = \<lparr>req_argv = [''/bin/false''], req_executable = ''/bin/false'',
                       req_stdin = File ''/dev/null'', req_stdout = PIPE, req_stderr = STDOUT\<rparr>,
           the_child = example_child\<rparr>)"
  by (simp add: start_def example_os_def example_program_def example_run_def Run_init_def
      dict_update_def str_int_def)

theorem child_process_io_and_exit_witness:
  "start example_os 0 example_program example_run =
     (example_run\<lparr>meta := [(''hostname'', Str ''host''), (''username'', Str ''user''),
                           (''start_time'', Str ''0'')]\<rparr>,
      Inr \<lparr>request = \<lparr>req_argv = [''/bin/false''], req_executable = ''/bin/false'',
                       req_stdin = File ''/dev/null'', req_stdout = PIPE, req_stderr = STDOUT\<rparr>,
           the_child = example_child\<rparr>) \<and>
   create_subprocess_exec example_os
     \<lparr>req_argv = [''/bin/false''], req_executable = ''/bin/false'',
      req_stdin = File ''/dev/null'', req_stdout = PIPE, req_stderr = STDOUT\<rparr> = Inr example_child \<and>
   communicate \<lparr>request = \<lparr>req_argv = [''/bin/false''], req_executable = ''/bin/false'',
                       req_stdin = File ''/dev/null'', req_stdout = PIPE, req_stderr = STDOUT\<rparr>,
                the_child = example_child\<rparr> = (Some ''outerr'', None) \<and>
   snd (wait example_os 1 example_program
          (example_run\<lparr>meta := [(''hostname'', Str ''host''), (''username'', Str ''user''),
                           (''start_time'', Str ''0'')]\<rparr>)
          \<lparr>request = \<lparr>req_argv = [''/bin/false''], req_executable = ''/bin/false'',
                       req_stdin = File ''/dev/null'', req_stdout = PIPE, req_stderr = STDOUT\<rparr>,
           the_child = example_child\<rparr>) = Inl (ProgramFailure ''return code = 7'')"
proof -
  let ?P = "\<lparr>request = \<lparr>req_argv = [''/bin/false''], req_executable = ''/bin/false'',
                       req_stdin = File ''/dev/null'', req_stdout = PIPE, req_stderr = STDOUT\<rparr>,
             the_child = example_child\<rparr>"
  let ?R = "example_run\<lparr>meta := [(''hostname'', Str ''host''), (''username'', Str ''user''),
                           (''start_time'', Str ''0'')]\<rparr>"
  note t = child_process_io_and_exit [OF example_start, of 1]
  from t have "create_subprocess_exec example_os (request ?P) = Inr (the_child ?P)"
    by (elim conjE)
  then have sp: "create_subprocess_exec example_os
     \<lparr>req_argv = [''/bin/false''], req_executable = ''/bin/false'',
      req_stdin = File ''/dev/null'', req_stdout = PIPE, req_stderr = STDOUT\<rparr> = Inr example_child"
    by simp
  from t have "communicate ?P =
      (Some (concat (map snd [w \<leftarrow> writes (the_child ?P). fst w = 1 \<or> fst w = 2])), None)"
    by (elim conjE)
  then have com: "communicate ?P = (Some ''outerr'', None)"
    by (simp add: example_child_def)
  from t have "exit_code (the_child ?P) \<noteq> 0 \<longrightarrow>
      snd (wait example_os 1 example_program ?R ?P) =
        Inl (ProgramFailure (''return code = '' @ str_int (exit_code (the_child ?P))))"
    by (elim conjE)
  then have w: "snd (wait example_os 1 example_program ?R ?P) = Inl (ProgramFailure ''return code = 7'')"
    by (simp add: example_child_def str_int_def)
  from example_start sp com w show ?thesis by (intro conjI)
qed

text \<open>
  C7, as stated, fails: a successful \<open>start\<close> on a fresh run leaves no entry for pid
  in the meta of the run.
\<close>

theorem start_records_no_pid:
  "snd (start example_os 0 example_program example_run) =
     Inr \<lparr>request = \<lparr>req_argv = [''/bin/false''], req_executable = ''/bin/false'',
                       req_stdin = File ''/dev/null'', req_stdout = PIPE, req_stderr = STDOUT\<rparr>,
          the_child = example_child\<rparr> \<and>
   map_of (meta (fst (start example_os 0 example_program example_run))) ''pid'' = None"
  by (simp add: example_start)

text \<open>
  C7, amended. For every run on which program start succeeds, when \<open>start\<close> returns
  the meta of the run has the entries hostname, username and start_time, and its entry
  for pid is what it was before. The pid is recorded by \<open>wait\<close>, together with the
  return code and the end time.
\<close>

theorem start_records_host_user_time:
  assumes "start env now self run = (run', Inr proc)"
  shows "map_of (meta run') ''hostname'' = Some (Str (gethostname env)) \<and>
         map_of (meta run') ''username'' = Some (Str (getuser env)) \<and>
         map_of (meta run') ''start_time'' = Some (Str (str_time env now)) \<and>
         map_of (meta run') ''pid'' = map_of (meta run) ''pid'' \<and>
         map_of (meta (fst (wait env now' self run' proc))) ''pid''
           = Some (Num (pid (the_child proc))) \<and>
         map_of (meta (fst (wait env now' self run' proc))) ''return_code''
           = Some (Num (exit_code (the_child proc))) \<and>
         map_of (meta (fst (wait env now' self run' proc))) ''end_time''
           = Some (Str (str_time env now'))"
proof -
  have req: "req_stdout (request proc) = PIPE" "req_stderr (request proc) = STDOUT"
    using start_Inr(2) [OF assms] by simp_all
  have "map_of (meta (fst (wait env now' self run' proc))) ''pid''
          = Some (Num (pid (the_child proc)))"
    "map_of (meta (fst (wait env now' self run' proc))) ''return_code''
          = Some (Num (exit_code (the_child proc)))"
    "map_of (meta (fst (wait env now' self run' proc))) ''end_time''
          = Some (Str (str_time env now'))"
    by (simp_all add: wait_def communicate_merged [OF req] returncode_def Let_def
        map_of_dict_update)
  moreover have "map_of (meta run') ''hostname'' = Some (Str (gethostname env))"
    "map_of (meta run') ''username'' = Some (Str (getuser env))"
    "map_of (meta run') ''start_time'' = Some (Str (str_time env now))"
    "map_of (meta run') ''pid'' = map_of (meta run) ''pid''"
    unfolding start_Inr(1) [OF assms] by (simp_all add: map_of_dict_update map_add_def)
  ultimately show ?thesis by (intro conjI)
qed

theorem start_records_host_user_time_witness:
  "snd (start example_os 0 example_program example_run) =
     Inr \<lparr>request = \<lparr>req_argv = [''/bin/false''], req_executable = ''/bin/false'',
                       req_stdin = File ''/dev/null'', req_stdout = PIPE, req_stderr = STDOUT\<rparr>,
          the_child = example_child\<rparr> \<and>
   map_of (meta (fst (start example_os 0 example_program example_run))) ''hostname'' = Some (Str ''host'') \<and>
   map_of (meta (fst (start example_os 0 example_program example_run))) ''start_time'' = Some (Str ''0'') \<and>
   map_of (meta (fst (wait example_os 1 example_program
       (fst (start example_os 0 example_program example_run))
       \<lparr>request = \<lparr>req_argv = [''/bin/false''], req_executable = ''/bin/false'',
                       req_stdin = File ''/dev/null'', req_stdout = PIPE, req_stderr = STDOUT\<rparr>,
           the_child = example_child\<rparr>))) ''pid'' = Some (Num 42) \<and>
   map_of (meta (fst (wait example_os 1 example_program
       (fst (start example_os 0 example_program example_run))
       \<lparr>request = \<lparr>req_argv = [''/bin/false''], req_executable = ''/bin/false'',
                       req_stdin = File ''/dev/null'', req_stdout = PIPE, req_stderr = STDOUT\<rparr>,
           the_child = example_child\<rparr>))) ''return_code'' = Some (Num 7) \<and>
   map_of (meta (fst (wait example_os 1 example_program
       (fst (start example_os 0 example_program example_run))
       \<lparr>request = \<lparr>req_argv = [''/bin/false''], req_executable = ''/bin/false'',
                       req_stdin = File ''/dev/null'', req_stdout = PIPE, req_stderr = STDOUT\<rparr>,
           the_child = example_child\<rparr>))) ''end_time'' = Some (Str ''1'')"
  using start_records_host_user_time [OF example_start, of 1]
  by (simp add: example_start example_os_sel example_child_def str_int_def)

section \<open>Theorems: cond/base.py\<close>

lemma get_cases:
  assumes "\<And>t. obj_args name = Some t \<Longrightarrow> \<exists>v. template_expand t bind_args = Inr v"
  shows "get template_expand job obj_args inst_args bind_args name =
           (case obj_args name of
              Some t \<Rightarrow> template_expand t bind_args
            | None \<Rightarrow>
                (case inst_args name of
                   Some v \<Rightarrow> Inr v
                 | None \<Rightarrow> Inl (LookupError
                     (''no value for param '' @ name @ '' of job '' @ Job.job_id job))))"
proof (cases "obj_args name")
  case None
  then show ?thesis by (simp add: get_def)
next
  case (Some t)
  with assms obtain v where "template_expand t bind_args = Inr v" by blast
  with Some show ?thesis by (simp add: get_def)
qed

lemma bind_comprehension_ok:
  assumes "\<forall>n\<in>set ns. \<exists>v. g n = Inr v"
  shows "\<exists>m. bind_comprehension g ns acc = Inr m \<and>
             fst ` set m = fst ` set acc \<union> set ns \<and>
             (\<forall>k. map_of m k = (if k \<in> set ns then (case g k of Inr v \<Rightarrow> Some v | Inl e \<Rightarrow> None)
                                 else map_of acc k))"
  using assms
proof (induction ns arbitrary: acc)
  case Nil
  show ?case by simp
next
  case (Cons n ns)
  from Cons.prems obtain v where v: "g n = Inr v" by auto
  from Cons.prems have "\<forall>n\<in>set ns. \<exists>v. g n = Inr v" by simp
  from Cons.IH [OF this, of "AList.update n v acc"]
  obtain m where m: "bind_comprehension g ns (AList.update n v acc) = Inr m"
    and dom: "fst ` set m = fst ` set (AList.update n v acc) \<union> set ns"
    and val: "\<And>k. map_of m k = (if k \<in> set ns then (case g k of Inr v \<Rightarrow> Some v | Inl e \<Rightarrow> None)
                                 else map_of (AList.update n v acc) k)"
    by blast
  have "bind_comprehension g (n # ns) acc = Inr m"
    using v m by simp
  moreover have "fst ` set m = fst ` set acc \<union> set (n # ns)"
    using dom by (simp add: dom_update)
  moreover have "map_of m k = (if k \<in> set (n # ns) then (case g k of Inr v \<Rightarrow> Some v | Inl e \<Rightarrow> None)
                                 else map_of acc k)" for k
    using val [of k] v by (simp add: update_conv')
  ultimately show ?case by blast
qed

lemma bind_comprehension_fail:
  assumes "\<exists>n\<in>set ns. \<exists>e. g n = Inl e"
  shows "\<exists>n\<in>set ns. \<exists>e. g n = Inl e \<and> bind_comprehension g ns acc = Inl e"
  using assms
proof (induction ns arbitrary: acc)
  case Nil
  then show ?case by simp
next
  case (Cons n ns)
  show ?case
  proof (cases "g n")
    case (Inl e)
    then show ?thesis by simp
  next
    case (Inr v)
    with Cons.prems have "\<exists>n\<in>set ns. \<exists>e. g n = Inl e" by auto
    from Cons.IH [OF this, of "AList.update n v acc"] Inr show ?thesis by auto
  qed
qed

text \<open>
  What \<open>_bind\<close> does when template expansion returns a value on the templates of
  \<open>obj_args\<close> that it reaches. If every param of the job is a key of \<open>obj_args\<close> or
  of \<open>inst_args\<close>, then \<open>_bind\<close> returns a dict whose key set is exactly the params
  of the job, and the value of each param is the expansion, with \<open>bind_args\<close>, of its
  entry in \<open>obj_args\<close> when it has one, and otherwise its entry in \<open>inst_args\<close> as it
  is. If some param is in neither, \<open>_bind\<close> raises LookupError, naming such a param.
\<close>

lemma bind_when_expansion_returns:
  assumes "\<And>n t. n \<in> set (params job) \<Longrightarrow> obj_args n = Some t
             \<Longrightarrow> \<exists>v. template_expand t bind_args = Inr v"
  shows "(set (params job) \<subseteq> dom obj_args \<union> dom inst_args \<longrightarrow>
            (\<exists>m. cond_bind template_expand job obj_args inst_args bind_args = Inr m \<and>
                 fst ` set m = set (params job) \<and>
                 (\<forall>n\<in>set (params job).
                    map_of m n =
                      (case obj_args n of
                         Some t \<Rightarrow> (case template_expand t bind_args of
                                      Inr v \<Rightarrow> Some v | Inl e \<Rightarrow> None)
                       | None \<Rightarrow> inst_args n)))) \<and>
         (\<not> set (params job) \<subseteq> dom obj_args \<union> dom inst_args \<longrightarrow>
            (\<exists>n\<in>set (params job). n \<notin> dom obj_args \<union> dom inst_args \<and>
               cond_bind template_expand job obj_args inst_args bind_args =
                 Inl (LookupError (''no value for param '' @ n @ '' of job '' @ Job.job_id job))))"
proof (intro conjI impI)
  let ?g = "get template_expand job obj_args inst_args bind_args"
  have g: "?g n =
           (case obj_args n of
              Some t \<Rightarrow> template_expand t bind_args
            | None \<Rightarrow>
                (case inst_args n of
                   Some v \<Rightarrow> Inr v
                 | None \<Rightarrow> Inl (LookupError
                     (''no value for param '' @ n @ '' of job '' @ Job.job_id job))))"
    if "n \<in> set (params job)" for n
    using assms [OF that] by (rule get_cases)
  {
    assume sub: "set (params job) \<subseteq> dom obj_args \<union> dom inst_args"
    have ok: "\<forall>n\<in>set (params job). \<exists>v. ?g n = Inr v"
    proof
      fix n assume n: "n \<in> set (params job)"
      show "\<exists>v. ?g n = Inr v"
      proof (cases "obj_args n")
        case None
        with sub n obtain v where "inst_args n = Some v" by auto
        with None g [OF n] show ?thesis by simp
      next
        case (Some t)
        with assms [OF n] g [OF n] show ?thesis by auto
      qed
    qed
    from bind_comprehension_ok [OF ok, of "[]"]
    obtain m where m: "bind_comprehension ?g (params job) [] = Inr m"
      and dom: "fst ` set m = set (params job)"
      and val: "\<And>k. map_of m k = (if k \<in> set (params job)
                  then (case ?g k of Inr v \<Rightarrow> Some v | Inl e \<Rightarrow> None) else None)"
      by auto
    have "map_of m n =
            (case obj_args n of
               Some t \<Rightarrow> (case template_expand t bind_args of Inr v \<Rightarrow> Some v | Inl e \<Rightarrow> None)
             | None \<Rightarrow> inst_args n)" if n: "n \<in> set (params job)" for n
      using val [of n] n g [OF n] by (auto split: option.splits)
    with m dom
    show "\<exists>m. cond_bind template_expand job obj_args inst_args bind_args = Inr m \<and>
                 fst ` set m = set (params job) \<and>
                 (\<forall>n\<in>set (params job).
                    map_of m n =
                      (case obj_args n of
                         Some t \<Rightarrow> (case template_expand t bind_args of
                                      Inr v \<Rightarrow> Some v | Inl e \<Rightarrow> None)
                       | None \<Rightarrow> inst_args n))"
      unfolding cond_bind_def by blast
  }
  {
    assume nsub: "\<not> set (params job) \<subseteq> dom obj_args \<union> dom inst_args"
    then obtain n0 where n0: "n0 \<in> set (params job)" "obj_args n0 = None" "inst_args n0 = None"
      by auto
    with g [OF n0(1)] have "\<exists>n\<in>set (params job). \<exists>e. ?g n = Inl e" by auto
    from bind_comprehension_fail [OF this, of "[]"]
    obtain n e where n: "n \<in> set (params job)" and e: "?g n = Inl e"
      and r: "bind_comprehension ?g (params job) [] = Inl e"
      by blast
    from e g [OF n] assms [OF n]
    have "n \<notin> dom obj_args \<union> dom inst_args \<and>
          e = LookupError (''no value for param '' @ n @ '' of job '' @ Job.job_id job)"
      by (auto split: option.splits)
    with n r
    show "\<exists>n\<in>set (params job). n \<notin> dom obj_args \<union> dom inst_args \<and>
               cond_bind template_expand job obj_args inst_args bind_args =
                 Inl (LookupError (''no value for param '' @ n @ '' of job '' @ Job.job_id job))"
      unfolding cond_bind_def by blast
  }
qed


section \<open>Theorems: the methods of the engine\<close>

lemmas engine_defs =
  run_events_def step_def Apsis_init_def Run_new_def Apsis_schedule_def Runs_add_def
  Apsis__start_def Apsis__get_program_def Jobs_get_job_def Apsis_transition_def ora_now_def
  Run__transition_def Run_transition_def terminal_def allowed_def Runs_update_def Apsis__wait_def Run_init_def
  dict_update_def STATE_name_def output_db_add_def ScheduledRuns_schedule_def
  ScheduledRuns_unschedule_def Apsis_cancel_def Apsis__wait_done_def del_running_task_def
  dict_del_def Apsis__rerun_def Runs_query_rerun_def info_def ensure_future_def finished_def
  Apsis_rerun_def

lemma example_running_fields:
  "state (heap example_running 0) = STATE_running"
  "run_id (heap example_running 0) = Some 0"
  "running_tasks example_running = [(Some 0, 0)]"
  "callbacks example_running = [(0, 0)]"
  "futures example_running 0 = PENDING"
  "map_of (run_db example_running) (Some 0) = Some (heap example_running 0, 0)"
  by (simp_all add: example_running_def example_job_def example_inst_def engine_defs Let_def)

lemma example_scheduled_fields:
  "state (heap example_scheduled 0) = STATE_scheduled"
  "run_id (heap example_scheduled 0) = Some 0"
  "scheduled example_scheduled = [(60, 0)]"
  "clock example_scheduled (ticks example_scheduled) = 1"
  by (simp_all add: example_scheduled_def example_job_def example_inst_def engine_defs Let_def)

lemma example_cancelled_fields:
  "state (heap example_cancelled 0) = STATE_error"
  "message (heap example_cancelled 0) = Some ''cancelled''"
  "run_id (heap example_cancelled 0) = Some 0"
  "map_of (times (heap example_cancelled 0)) ''error'' = Some (Some 1)"
  "map_of (run_db example_cancelled) (Some 0) = Some (heap example_cancelled 0, 1)"
  "scheduled example_cancelled = []"
  "clock example_cancelled (ticks example_cancelled) = 2"
  by (simp_all add: example_cancelled_def example_scheduled_def example_job_def example_inst_def
      engine_defs Let_def)

lemma example_failed_fields:
  "state (heap example_failed 0) = STATE_failure"
  "run_id (heap example_failed 0) = Some 0"
  "rerun (heap example_failed 0) = Some 0"
  "map_of (times (heap example_failed 0)) ''schedule'' = Some (Some 0)"
  "map_of (times (heap example_failed 0)) ''failure'' = Some (Some 2000)"
  "runs example_failed = [0]"
  "log_records example_failed = [Info_retry_max_delay (Some 0)]"
  "loop_tasks example_failed = [Coro_rerun 0 (Some 3005)]"
  by (simp_all add: example_failed_def example_job_def example_inst_def engine_defs Let_def)

text \<open>
  C1, at a failing input. The job has the rerun policy count 1, delay 5, max_delay 10.
  Its run is scheduled for time 0 and fails; the rerun policy is evaluated when the
  clock reads 3000, so 3000 units have elapsed since the schedule time of the original
  run, more than max_delay. The code logs that the maximal delay is exceeded and still
  hands a rerun for time 3005 to the event loop; when that coroutine runs, the store
  holds a second run of the family.
\<close>

theorem rerun_ignores_max_delay:
  "map_of (times (heap example_failed 0)) ''schedule'' = Some (Some 0) \<and>
   max_delay (reruns example_job) = 10 \<and>
   log_records example_failed = [Info_retry_max_delay (Some 0)] \<and>
   loop_tasks example_failed = [Coro_rerun 0 (Some 3005)] \<and>
   map (\<lambda>r. rerun (heap (step (Ev_task (Start_returns [] [])) example_failed) r))
     (runs (step (Ev_task (Start_returns [] [])) example_failed)) = [Some 0, Some 0]"
proof -
  have "map (\<lambda>r. rerun (heap (step (Ev_task (Start_returns [] [])) example_failed) r))
     (runs (step (Ev_task (Start_returns [] [])) example_failed)) = [Some 0, Some 0]"
    by (simp add: example_failed_def example_job_def example_inst_def engine_defs Let_def)
  moreover have "max_delay (reruns example_job) = 10"
    by (simp add: example_job_def)
  ultimately show ?thesis
    by (simp add: example_failed_fields)
qed

lemma wait_done_cancelled:
  "Apsis__wait_done r Raise_CancelledError s =
     (Inr (), info (Info_canceled_waiting (run_id (heap s r))) s)"
  by (simp add: Apsis__wait_done_def)

text \<open>
  C2, as stated, fails. In \<open>example_running\<close> the run 0 is running and its future
  is stored in \<open>running_tasks\<close>. After the completion callback has seen the
  cancellation, the entry of the run is still in the table.
\<close>

theorem cancelled_wait_keeps_running_task:
  "map_of (running_tasks example_running) (run_id (heap example_running 0)) = Some 0 \<and>
   map_of (running_tasks (snd (Apsis__wait_done 0 Raise_CancelledError example_running)))
     (run_id (heap example_running 0)) = Some 0"
  by (simp add: wait_done_cancelled info_def example_running_fields)

text \<open>
  C2, amended. When the supervision future of a run is cancelled (engine shutdown), the
  completion callback returns without persisting a transition: the persisted runs, the
  outputs and the run objects are as before, so a run that was running is still
  running, durably and in memory. The table \<open>running_tasks\<close> is also as before: the
  entry of the run stays.
\<close>

theorem cancelled_wait_changes_no_run:
  "fst (Apsis__wait_done r Raise_CancelledError s) = Inr () \<and>
   run_db (snd (Apsis__wait_done r Raise_CancelledError s)) = run_db s \<and>
   output_db (snd (Apsis__wait_done r Raise_CancelledError s)) = output_db s \<and>
   heap (snd (Apsis__wait_done r Raise_CancelledError s)) = heap s \<and>
   running_tasks (snd (Apsis__wait_done r Raise_CancelledError s)) = running_tasks s"
  by (simp add: wait_done_cancelled info_def)

lemma cancel_live:
  assumes "\<not> terminal (state (heap s r))"
  shows "fst (Apsis_cancel r s) = Inr ()"
    and "r \<notin> snd ` set (scheduled (snd (Apsis_cancel r s)))"
    and "state (heap (snd (Apsis_cancel r s)) r) = STATE_error"
    and "message (heap (snd (Apsis_cancel r s)) r) = Some ''cancelled''"
    and "map_of (times (heap (snd (Apsis_cancel r s)) r)) ''error'' = Some (Some (clock s (ticks s)))"
    and "map_of (run_db (snd (Apsis_cancel r s))) (run_id (heap s r))
           = Some (heap (snd (Apsis_cancel r s)) r, clock s (ticks s))"
proof -
  have a: "allowed (state (heap s r)) STATE_error"
    using assms by (cases "state (heap s r)") (simp_all add: allowed_def terminal_def)
  show "fst (Apsis_cancel r s) = Inr ()"
    "r \<notin> snd ` set (scheduled (snd (Apsis_cancel r s)))"
    "state (heap (snd (Apsis_cancel r s)) r) = STATE_error"
    "message (heap (snd (Apsis_cancel r s)) r) = Some ''cancelled''"
    "map_of (times (heap (snd (Apsis_cancel r s)) r)) ''error'' = Some (Some (clock s (ticks s)))"
    "map_of (run_db (snd (Apsis_cancel r s))) (run_id (heap s r))
           = Some (heap (snd (Apsis_cancel r s)) r, clock s (ticks s))"
    using assms a
    by (auto simp: Apsis_cancel_def Apsis_transition_def ora_now_def Run__transition_def
        Run_transition_def Runs_update_def ScheduledRuns_unschedule_def STATE_name_def
        dict_update_def update_conv' Let_def)
qed

lemma cancel_terminal:
  assumes "terminal (state (heap s r))"
  shows "Apsis_cancel r s =
           (Inl AlreadyTerminal,
            s\<lparr>scheduled := [e \<leftarrow> scheduled s. snd e \<noteq> r], ticks := Suc (ticks s)\<rparr>)"
  using assms
  by (simp add: Apsis_cancel_def Apsis_transition_def ora_now_def Run__transition_def
      Run_transition_def ScheduledRuns_unschedule_def)

text \<open>
  C3, as stated, fails: \<open>cancel\<close> is not restricted to scheduled runs. In
  \<open>example_running\<close> the run 0 is running. \<open>cancel\<close> returns normally and moves the
  run to error with the message "cancelled", while its future is still pending in
  \<open>running_tasks\<close>.
\<close>

theorem cancel_moves_running_run:
  "state (heap example_running 0) = STATE_running \<and>
   fst (Apsis_cancel 0 example_running) = Inr () \<and>
   state (heap (snd (Apsis_cancel 0 example_running)) 0) = STATE_error \<and>
   message (heap (snd (Apsis_cancel 0 example_running)) 0) = Some ''cancelled'' \<and>
   running_tasks (snd (Apsis_cancel 0 example_running)) = [(Some 0, 0)] \<and>
   futures (snd (Apsis_cancel 0 example_running)) 0 = PENDING"
proof -
  have live: "\<not> terminal (state (heap example_running 0))"
    by (simp add: example_running_fields terminal_def)
  have "running_tasks (snd (Apsis_cancel 0 example_running)) = running_tasks example_running"
    "futures (snd (Apsis_cancel 0 example_running)) = futures example_running"
    by (simp_all add: Apsis_cancel_def Apsis_transition_def ora_now_def Run__transition_def
        Runs_update_def ScheduledRuns_unschedule_def output_db_add_def Let_def
        split: sum.splits)
  then show ?thesis
    using cancel_live(1,3,4) [OF live] by (simp add: example_running_fields)
qed

text \<open>
  C3, amended. \<open>cancel(run)\<close> makes no check of its own: it removes the run from the
  timed queue and asks for the transition to error with the message "cancelled". On a
  run in state scheduled, and as well on a run in state new or running, it returns
  normally, the run is in no entry of the timed queue, and the run is in state error
  with the message "cancelled", the time of the error recorded and the run persisted.
  On a run in a terminal state, such as a run already in error, the transition is
  refused: the call raises AlreadyTerminal and changes no run, nothing persisted and no
  table (it takes what entries of the run the timed queue holds, and reads the clock).
\<close>

theorem cancel_by_state:
  "(state (heap s r) \<in> {STATE_new, STATE_scheduled, STATE_running} \<longrightarrow>
      fst (Apsis_cancel r s) = Inr () \<and>
      r \<notin> snd ` set (scheduled (snd (Apsis_cancel r s))) \<and>
      state (heap (snd (Apsis_cancel r s)) r) = STATE_error \<and>
      message (heap (snd (Apsis_cancel r s)) r) = Some ''cancelled'' \<and>
      map_of (times (heap (snd (Apsis_cancel r s)) r)) ''error'' = Some (Some (clock s (ticks s))) \<and>
      map_of (run_db (snd (Apsis_cancel r s))) (run_id (heap s r))
        = Some (heap (snd (Apsis_cancel r s)) r, clock s (ticks s))) \<and>
   (state (heap s r) \<in> {STATE_success, STATE_failure, STATE_error} \<longrightarrow>
      Apsis_cancel r s =
        (Inl AlreadyTerminal,
         s\<lparr>scheduled := [e \<leftarrow> scheduled s. snd e \<noteq> r], ticks := Suc (ticks s)\<rparr>))"
proof (intro conjI impI)
  assume "state (heap s r) \<in> {STATE_new, STATE_scheduled, STATE_running}"
  then have live: "\<not> terminal (state (heap s r))"
    by (auto simp: terminal_def)
  show "fst (Apsis_cancel r s) = Inr ()"
    "r \<notin> snd ` set (scheduled (snd (Apsis_cancel r s)))"
    "state (heap (snd (Apsis_cancel r s)) r) = STATE_error"
    "message (heap (snd (Apsis_cancel r s)) r) = Some ''cancelled''"
    "map_of (times (heap (snd (Apsis_cancel r s)) r)) ''error'' = Some (Some (clock s (ticks s)))"
    "map_of (run_db (snd (Apsis_cancel r s))) (run_id (heap s r))
        = Some (heap (snd (Apsis_cancel r s)) r, clock s (ticks s))"
    by (rule cancel_live [OF live])+
next
  assume "state (heap s r) \<in> {STATE_success, STATE_failure, STATE_error}"
  then have "terminal (state (heap s r))"
    by (auto simp: terminal_def)
  then show "Apsis_cancel r s =
        (Inl AlreadyTerminal,
         s\<lparr>scheduled := [e \<leftarrow> scheduled s. snd e \<noteq> r], ticks := Suc (ticks s)\<rparr>)"
    by (rule cancel_terminal)
qed

theorem cancel_by_state_witness:
  "state (heap example_scheduled 0) \<in> {STATE_new, STATE_scheduled, STATE_running} \<and>
   scheduled example_scheduled = [(60, 0)] \<and>
   fst (Apsis_cancel 0 example_scheduled) = Inr () \<and>
   0 \<notin> snd ` set (scheduled (snd (Apsis_cancel 0 example_scheduled))) \<and>
   state (heap (snd (Apsis_cancel 0 example_scheduled)) 0) = STATE_error \<and>
   message (heap (snd (Apsis_cancel 0 example_scheduled)) 0) = Some ''cancelled'' \<and>
   state (heap example_cancelled 0) \<in> {STATE_success, STATE_failure, STATE_error} \<and>
   fst (Apsis_cancel 0 example_cancelled) = Inl AlreadyTerminal \<and>
   heap (snd (Apsis_cancel 0 example_cancelled)) = heap example_cancelled \<and>
   run_db (snd (Apsis_cancel 0 example_cancelled)) = run_db example_cancelled"
proof -
  have a: "state (heap example_scheduled 0) \<in> {STATE_new, STATE_scheduled, STATE_running}"
    by (simp add: example_scheduled_fields)
  have b: "state (heap example_cancelled 0) \<in> {STATE_success, STATE_failure, STATE_error}"
    by (simp add: example_cancelled_fields)
  from cancel_by_state [of example_scheduled 0] a
  have "fst (Apsis_cancel 0 example_scheduled) = Inr () \<and>
      0 \<notin> snd ` set (scheduled (snd (Apsis_cancel 0 example_scheduled))) \<and>
      state (heap (snd (Apsis_cancel 0 example_scheduled)) 0) = STATE_error \<and>
      message (heap (snd (Apsis_cancel 0 example_scheduled)) 0) = Some ''cancelled''"
    by blast
  moreover from cancel_by_state [of example_cancelled 0] b
  have "Apsis_cancel 0 example_cancelled =
        (Inl AlreadyTerminal,
         example_cancelled\<lparr>scheduled := [e \<leftarrow> scheduled example_cancelled. snd e \<noteq> 0],
            ticks := Suc (ticks example_cancelled)\<rparr>)"
    by blast
  ultimately show ?thesis
    using a b by (simp add: example_scheduled_fields)
qed

section \<open>Theorems: rerun families\<close>

subsection \<open>Changes the invariant does not see\<close>

lemma unchanged_refl: "unchanged s s"
  by (simp add: unchanged_def)

lemma unchanged_trans: "unchanged a b \<Longrightarrow> unchanged b c \<Longrightarrow> unchanged a c"
  by (simp add: unchanged_def)

lemma unchanged_heap:
  assumes "heap s' = heap s" "runs s' = runs s" "next_ref s' = next_ref s"
    "next_run_id s' = next_run_id s" "scheduled s' = scheduled s" "callbacks s' = callbacks s"
    "futures s' = futures s" "next_future s' = next_future s" "loop_tasks s' = loop_tasks s"
    "jobs s' = jobs s"
  shows "unchanged s s'"
  using assms by (simp add: unchanged_def run_id_of_def rerun_of_def inst_of_def fun_eq_iff)

lemma unchanged_now: "unchanged s (snd (ora_now s))"
  by (rule unchanged_heap) (simp_all add: ora_now_def)

lemma unchanged_info: "unchanged s (info l s)"
  by (rule unchanged_heap) (simp_all add: info_def)

lemma unchanged_Run_transition:
  "Run__transition r time st m ts msg s = Inr s' \<Longrightarrow> unchanged s s'"
  by (auto simp: unchanged_def Run__transition_def Run_transition_def run_id_of_def rerun_of_def
      inst_of_def fun_eq_iff split: if_splits)

lemma unchanged_output_db_add: "unchanged s (output_db_add i output_id out s)"
  by (rule unchanged_heap) (simp_all add: output_db_add_def)

lemma unchanged_outputs:
  "unchanged s (fold (\<lambda>(output_id, out). output_db_add i output_id out) outs s)"
proof (induction outs arbitrary: s)
  case Nil
  show ?case by (simp add: unchanged_refl)
next
  case (Cons a outs)
  obtain output_id out where a: "a = (output_id, out)" by (cases a)
  show ?case
    using unchanged_trans [OF unchanged_output_db_add Cons.IH] by (simp add: a)
qed

lemma unchanged_Runs_update: "unchanged s (Runs_update r time s)"
  by (rule unchanged_heap) (simp_all add: Runs_update_def)

lemma unchanged_running_tasks: "unchanged s (s\<lparr>running_tasks := d\<rparr>)"
  by (rule unchanged_heap) simp_all

lemma unchanged_program:
  "unchanged s (s\<lparr>heap := (heap s)(r := (heap s r)\<lparr>program := p\<rparr>)\<rparr>)"
  by (auto simp: unchanged_def run_id_of_def rerun_of_def inst_of_def fun_eq_iff)

lemma unchanged_family: "unchanged s s' \<Longrightarrow> family s' f = family s f"
  by (simp add: unchanged_def family_def Runs_query_rerun_def rerun_of_def [symmetric])

lemma unchanged_pending: "unchanged s s' \<Longrightarrow> pending_reruns s' f = pending_reruns s f"
  by (simp add: unchanged_def pending_reruns_def)

lemma unchanged_weight: "unchanged s s' \<Longrightarrow> weight s' f = weight s f"
  by (simp add: unchanged_def weight_def pending_reruns_def)

lemma unchanged_policy_bound: "unchanged s s' \<Longrightarrow> policy_bound s' r = policy_bound s r"
  by (simp add: unchanged_def policy_bound_def inst_of_def [symmetric])

lemma unchanged_stored: "unchanged s s' \<Longrightarrow> stored s' = stored s"
  by (simp add: stored_def unchanged_def)

lemma unchanged_referenced: "unchanged s s' \<Longrightarrow> referenced s' = referenced s"
  by (simp add: referenced_def unchanged_def)

lemma unchanged_families: "unchanged s s' \<Longrightarrow> families s' = families s"
  by (simp add: families_def unchanged_def)

lemma unchanged_runs: "unchanged s s' \<Longrightarrow> runs s' = runs s"
  by (simp add: unchanged_def)

lemma unchanged_rerun_of: "unchanged s s' \<Longrightarrow> rerun_of s' = rerun_of s"
  by (simp add: unchanged_def)

lemma unchanged_bounded: "unchanged s s' \<Longrightarrow> bounded s' = bounded s"
  by (simp add: bounded_def unchanged_weight unchanged_family unchanged_pending
      unchanged_policy_bound unchanged_runs unchanged_rerun_of)

lemma unchanged_invariant: "unchanged s s' \<Longrightarrow> invariant s \<Longrightarrow> invariant s'"
  by (simp add: invariant_def unchanged_stored unchanged_referenced unchanged_families
      unchanged_bounded)

subsection \<open>What a transition does\<close>

lemma unchanged_ensure_future:
  "unchanged s s' \<Longrightarrow> unchanged (ensure_future c s) (ensure_future c s')"
  by (simp add: unchanged_def ensure_future_def run_id_of_def rerun_of_def inst_of_def fun_eq_iff)

lemma rerun_shape:
  assumes "map_of (jobs s) (job_id (inst (heap s r))) = Some job"
    and "count (reruns job) \<noteq> 0"
    and "\<not> length (Runs_query_rerun (rerun (heap s r)) s) > count (reruns job)"
  shows "snd (Apsis__rerun r s) = snd (ora_now s) \<or>
         snd (Apsis__rerun r s) =
           ensure_future (Coro_rerun r (Some (fst (ora_now s) + delay (reruns job))))
             (snd (ora_now s)) \<or>
         snd (Apsis__rerun r s) =
           ensure_future (Coro_rerun r (Some (fst (ora_now s) + delay (reruns job))))
             (info (Info_retry_max_delay (rerun (heap s r))) (snd (ora_now s)))"
  using assms
  by (simp add: Apsis__rerun_def Jobs_get_job_def Let_def ora_now_def
      split: list.split option.split)

lemma rerun_effect:
  "unchanged s (snd (Apsis__rerun r s)) \<or>
   (\<exists>time job. map_of (jobs s) (job_id (inst_of s r)) = Some job \<and>
      length (family s (rerun_of s r)) \<le> count (reruns job) \<and>
      unchanged (ensure_future (Coro_rerun r time) s) (snd (Apsis__rerun r s)))"
proof (cases "map_of (jobs s) (job_id (inst (heap s r)))")
  case None
  then show ?thesis
    by (simp add: Apsis__rerun_def Jobs_get_job_def unchanged_refl)
next
  case (Some job)
  show ?thesis
  proof (cases "count (reruns job) = 0")
    case True
    then show ?thesis
      using Some by (simp add: Apsis__rerun_def Jobs_get_job_def unchanged_refl)
  next
    case nz: False
    show ?thesis
    proof (cases "length (Runs_query_rerun (rerun (heap s r)) s) > count (reruns job)")
      case True
      then show ?thesis
        using Some nz by (simp add: Apsis__rerun_def Jobs_get_job_def unchanged_info Let_def)
    next
      case False
      let ?s1 = "snd (ora_now s)"
      let ?c = "Coro_rerun r (Some (fst (ora_now s) + delay (reruns job)))"
      let ?l = "Info_retry_max_delay (rerun (heap s r))"
      have s1: "unchanged s ?s1" by (rule unchanged_now)
      have gate: "map_of (jobs s) (job_id (inst_of s r)) = Some job"
        "length (family s (rerun_of s r)) \<le> count (reruns job)"
        using Some False by (simp_all add: inst_of_def rerun_of_def family_def)
      from rerun_shape [OF Some nz False]
      consider "snd (Apsis__rerun r s) = ?s1"
        | "snd (Apsis__rerun r s) = ensure_future ?c ?s1"
        | "snd (Apsis__rerun r s) = ensure_future ?c (info ?l ?s1)"
        by blast
      then show ?thesis
      proof cases
        case 1
        then show ?thesis using s1 by simp
      next
        case 2
        have "unchanged (ensure_future ?c s) (snd (Apsis__rerun r s))"
          unfolding 2 by (rule unchanged_ensure_future [OF s1])
        with gate show ?thesis by blast
      next
        case 3
        have "unchanged s (info ?l ?s1)"
          using unchanged_trans [OF s1 unchanged_info] .
        then have "unchanged (ensure_future ?c s) (snd (Apsis__rerun r s))"
          unfolding 3 by (rule unchanged_ensure_future)
        with gate show ?thesis by blast
      qed
    qed
  qed
qed

lemma transition_pre:
  assumes "Run__transition r time st m ts msg (snd (ora_now s)) = Inr s2"
  shows "unchanged s
     (Runs_update r time (fold (\<lambda>(output_id, out). output_db_add i output_id out) outs s2))"
proof -
  have "unchanged s s2"
    by (rule unchanged_trans [OF unchanged_now unchanged_Run_transition [OF assms]])
  then have "unchanged s (fold (\<lambda>(output_id, out). output_db_add i output_id out) outs s2)"
    by (rule unchanged_trans [OF _ unchanged_outputs])
  then show ?thesis
    by (rule unchanged_trans [OF _ unchanged_Runs_update])
qed

lemma transition_other:
  assumes "st \<noteq> STATE_failure"
  shows "unchanged s (snd (Apsis_transition r st outs m ts msg s))"
proof -
  obtain time s1 where n: "ora_now s = (time, s1)" by (cases "ora_now s")
  have s1: "unchanged s s1" using unchanged_now [of s] n by simp
  show ?thesis
  proof (cases "Run__transition r time st m ts msg s1")
    case (Inl e)
    then show ?thesis using n s1 by (simp add: Apsis_transition_def)
  next
    case (Inr s2)
    then show ?thesis
      using assms n transition_pre [of r time st m ts msg s s2 _ outs]
      by (simp add: Apsis_transition_def Let_def)
  qed
qed

lemma transition_effect:
  "unchanged s (snd (Apsis_transition r st outs m ts msg s)) \<or>
   (\<exists>time job. map_of (jobs s) (job_id (inst_of s r)) = Some job \<and>
      length (family s (rerun_of s r)) \<le> count (reruns job) \<and>
      unchanged (ensure_future (Coro_rerun r time) s) (snd (Apsis_transition r st outs m ts msg s)))"
proof (cases "st = STATE_failure")
  case False
  then show ?thesis by (simp add: transition_other)
next
  case True
  obtain time s1 where n: "ora_now s = (time, s1)" by (cases "ora_now s")
  have s1: "unchanged s s1" using unchanged_now [of s] n by simp
  show ?thesis
  proof (cases "Run__transition r time st m ts msg s1")
    case (Inl e)
    then show ?thesis using n s1 by (simp add: Apsis_transition_def)
  next
    case (Inr s2)
    define s4 where "s4 =
       Runs_update r time
         (fold (\<lambda>(output_id, out). output_db_add (run_id (heap s2 r)) output_id out) outs s2)"
    have u: "unchanged s s4"
      using transition_pre [of r time st m ts msg s s2 _ outs] Inr n by (simp add: s4_def)
    have t: "Apsis_transition r st outs m ts msg s = Apsis__rerun r s4"
      using True n Inr by (simp add: Apsis_transition_def Let_def s4_def)
    from rerun_effect [of s4 r]
    show ?thesis
    proof
      assume "unchanged s4 (snd (Apsis__rerun r s4))"
      then show ?thesis using t unchanged_trans [OF u] by simp
    next
      assume "\<exists>time job. map_of (jobs s4) (job_id (inst_of s4 r)) = Some job \<and>
        length (family s4 (rerun_of s4 r)) \<le> count (reruns job) \<and>
        unchanged (ensure_future (Coro_rerun r time) s4) (snd (Apsis__rerun r s4))"
      then obtain time' job where j: "map_of (jobs s4) (job_id (inst_of s4 r)) = Some job"
        and l: "length (family s4 (rerun_of s4 r)) \<le> count (reruns job)"
        and e: "unchanged (ensure_future (Coro_rerun r time') s4) (snd (Apsis__rerun r s4))"
        by blast
      have "map_of (jobs s) (job_id (inst_of s r)) = Some job"
        using j u by (simp add: unchanged_def)
      moreover have "length (family s (rerun_of s r)) \<le> count (reruns job)"
        using l unchanged_family [OF u] u by (simp add: unchanged_def)
      moreover have "unchanged (ensure_future (Coro_rerun r time') s) (snd (Apsis__rerun r s4))"
        using unchanged_trans [OF unchanged_ensure_future [OF u] e] .
      ultimately show ?thesis using t by auto
    qed
  qed
qed

subsection \<open>Counting\<close>

lemma length_filter_imp:
  "(\<And>x. x \<in> set xs \<Longrightarrow> Q x \<Longrightarrow> P x) \<Longrightarrow> length (filter Q xs) \<le> length (filter P xs)"
proof (induction xs)
  case Nil
  show ?case by simp
next
  case (Cons a xs)
  then have "length (filter Q xs) \<le> length (filter P xs)" by simp
  moreover have "Q a \<Longrightarrow> P a" using Cons.prems by simp
  ultimately show ?case by auto
qed

lemma length_filter_imp_less:
  assumes "x \<in> set xs" "P x" "\<not> Q x" "\<And>y. y \<in> set xs \<Longrightarrow> Q y \<Longrightarrow> P y"
  shows "length (filter Q xs) < length (filter P xs)"
proof -
  have "filter Q xs = filter Q (filter P xs)"
    using assms(4) by (auto intro: filter_cong)
  moreover have "x \<in> set (filter P xs)" using assms(1,2) by simp
  ultimately show ?thesis
    using length_filter_less [of x "filter P xs" Q] assms(3) by simp
qed

lemma weight_zero_pending: "weight s f = 0 \<Longrightarrow> pending_reruns s f = 0"
  by (simp add: weight_def)

subsection \<open>A future completes\<close>

lemma weight_set_future:
  assumes "x \<noteq> PENDING"
  shows "weight (s\<lparr>futures := (futures s)(fut := x)\<rparr>) f \<le> weight s f"
proof -
  have "length [c \<leftarrow> callbacks s. ((futures s)(fut := x)) (fst c) = PENDING \<and> rerun_of s (snd c) = f]
        \<le> length [c \<leftarrow> callbacks s. futures s (fst c) = PENDING \<and> rerun_of s (snd c) = f]"
    using assms by (intro length_filter_imp) (auto split: if_splits)
  then show ?thesis
    by (simp add: weight_def pending_reruns_def rerun_of_def)
qed

lemma weight_set_future_less:
  assumes "x \<noteq> PENDING" "(fut, r) \<in> set (callbacks s)" "futures s fut = PENDING"
  shows "weight (s\<lparr>futures := (futures s)(fut := x)\<rparr>) (rerun_of s r) < weight s (rerun_of s r)"
proof -
  have "length [c \<leftarrow> callbacks s. ((futures s)(fut := x)) (fst c) = PENDING
                  \<and> rerun_of s (snd c) = rerun_of s r]
        < length [c \<leftarrow> callbacks s. futures s (fst c) = PENDING \<and> rerun_of s (snd c) = rerun_of s r]"
    using assms by (intro length_filter_imp_less [of "(fut, r)"]) (auto split: if_splits)
  then show ?thesis
    by (simp add: weight_def pending_reruns_def rerun_of_def)
qed

lemma obs_heap:
  assumes "heap s' = heap s"
  shows "run_id_of s' = run_id_of s" "rerun_of s' = rerun_of s" "inst_of s' = inst_of s"
  using assms by (simp_all add: run_id_of_def rerun_of_def inst_of_def fun_eq_iff)

lemma stored_cong:
  "run_id_of s' = run_id_of s \<Longrightarrow> rerun_of s' = rerun_of s \<Longrightarrow> runs s' = runs s \<Longrightarrow>
   next_ref s' = next_ref s \<Longrightarrow> next_run_id s' = next_run_id s \<Longrightarrow> stored s' = stored s"
  by (simp add: stored_def)

lemma referenced_cong:
  "scheduled s' = scheduled s \<Longrightarrow> callbacks s' = callbacks s \<Longrightarrow>
   loop_tasks s' = loop_tasks s \<Longrightarrow> runs s' = runs s \<Longrightarrow> next_future s' = next_future s \<Longrightarrow>
   referenced s' = referenced s"
  by (simp add: referenced_def)

lemma families_cong:
  "run_id_of s' = run_id_of s \<Longrightarrow> rerun_of s' = rerun_of s \<Longrightarrow> inst_of s' = inst_of s \<Longrightarrow>
   runs s' = runs s \<Longrightarrow> families s' = families s"
  by (simp add: families_def)

lemma family_cong:
  "rerun_of s' = rerun_of s \<Longrightarrow> runs s' = runs s \<Longrightarrow> family s' f = family s f"
  by (simp add: family_def Runs_query_rerun_def rerun_of_def [symmetric])

lemma pending_cong:
  "rerun_of s' = rerun_of s \<Longrightarrow> loop_tasks s' = loop_tasks s \<Longrightarrow>
   pending_reruns s' f = pending_reruns s f"
  by (simp add: pending_reruns_def)

lemma policy_bound_cong:
  "inst_of s' = inst_of s \<Longrightarrow> jobs s' = jobs s \<Longrightarrow> policy_bound s' r = policy_bound s r"
  by (simp add: policy_bound_def inst_of_def [symmetric])

lemma invariant_parts:
  "invariant s \<Longrightarrow> stored s" "invariant s \<Longrightarrow> referenced s" "invariant s \<Longrightarrow> families s"
  "invariant s \<Longrightarrow> bounded s"
  by (simp_all add: invariant_def)

lemma bounded_weight: "bounded s \<Longrightarrow> weight s f \<le> 1"
  by (simp add: bounded_def)

lemma bounded_family:
  "bounded s \<Longrightarrow> r \<in> set (runs s) \<Longrightarrow>
   length (family s (rerun_of s r)) + pending_reruns s (rerun_of s r) \<le> policy_bound s r"
  by (simp add: bounded_def)

lemma boundedI:
  assumes "\<And>f. weight s f \<le> 1"
    and "\<And>r. r \<in> set (runs s) \<Longrightarrow>
           length (family s (rerun_of s r)) + pending_reruns s (rerun_of s r) \<le> policy_bound s r"
  shows "bounded s"
  using assms by (simp add: bounded_def)

lemma invariant_set_future:
  assumes "invariant s" "x \<noteq> PENDING"
  shows "invariant (s\<lparr>futures := (futures s)(fut := x)\<rparr>)"
proof -
  let ?s = "s\<lparr>futures := (futures s)(fut := x)\<rparr>"
  have h: "heap ?s = heap s" by simp
  note o = obs_heap [OF h]
  have "stored ?s"
    using invariant_parts(1) [OF assms(1)] stored_cong [OF o(1,2), symmetric] by simp
  moreover have "referenced ?s"
    using invariant_parts(2) [OF assms(1)] referenced_cong [of ?s s] by simp
  moreover have "families ?s"
    using invariant_parts(3) [OF assms(1)] families_cong [OF o] by simp
  moreover have "bounded ?s"
  proof (rule boundedI)
    fix f
    show "weight ?s f \<le> 1"
      using weight_set_future [OF assms(2), of s fut f]
        bounded_weight [OF invariant_parts(4) [OF assms(1)], of f]
      by (rule le_trans)
  next
    fix r assume "r \<in> set (runs ?s)"
    then have "r \<in> set (runs s)" by simp
    from bounded_family [OF invariant_parts(4) [OF assms(1)] this]
    show "length (family ?s (rerun_of ?s r)) + pending_reruns ?s (rerun_of ?s r) \<le> policy_bound ?s r"
      using family_cong [OF o(2), of "rerun_of s r"] pending_cong [OF o(2), of "rerun_of s r"]
        policy_bound_cong [OF o(3), of r]
      by (simp add: o(2))
  qed
  ultimately show ?thesis by (simp add: invariant_def)
qed

subsection \<open>A rerun is handed to the event loop, and taken from it\<close>

lemma weight_ensure_future:
  "weight (ensure_future c s) f = weight s f + (if rerun_of s (coro_ref c) = f then 1 else 0)"
  by (simp add: weight_def pending_reruns_def ensure_future_def rerun_of_def)

lemma pending_ensure_future:
  "pending_reruns (ensure_future c s) f
     = pending_reruns s f + (if rerun_of s (coro_ref c) = f then 1 else 0)"
  by (simp add: pending_reruns_def ensure_future_def rerun_of_def)

lemma families_inst:
  "families s \<Longrightarrow> r \<in> set (runs s) \<Longrightarrow> r' \<in> set (runs s) \<Longrightarrow> rerun_of s r = rerun_of s r'
     \<Longrightarrow> inst_of s r = inst_of s r'"
  unfolding families_def by blast

lemma policy_bound_inst: "inst_of s r = inst_of s r' \<Longrightarrow> policy_bound s r = policy_bound s r'"
  by (simp add: policy_bound_def inst_of_def)

lemma invariant_enqueue:
  assumes inv: "invariant s" and r: "r \<in> set (runs s)" and w: "weight s (rerun_of s r) = 0"
    and job: "map_of (jobs s) (job_id (inst_of s r)) = Some job"
    and len: "length (family s (rerun_of s r)) \<le> count (reruns job)"
  shows "invariant (ensure_future (Coro_rerun r time) s)"
proof -
  let ?c = "Coro_rerun r time"
  let ?s = "ensure_future ?c s"
  have h: "heap ?s = heap s" by (simp add: ensure_future_def)
  note o = obs_heap [OF h]
  have f: "runs ?s = runs s" "next_ref ?s = next_ref s" "next_run_id ?s = next_run_id s"
    "scheduled ?s = scheduled s" "callbacks ?s = callbacks s" "next_future ?s = next_future s"
    "jobs ?s = jobs s" "loop_tasks ?s = loop_tasks s @ [?c]"
    by (simp_all add: ensure_future_def)
  have "stored ?s"
    using invariant_parts(1) [OF inv] stored_cong [OF o(1,2) f(1,2,3)] by simp
  moreover have "referenced ?s"
    using invariant_parts(2) [OF inv] r by (simp add: referenced_def f coro_ref_def)
  moreover have "families ?s"
    using invariant_parts(3) [OF inv] families_cong [OF o f(1)] by simp
  moreover have "bounded ?s"
  proof (rule boundedI)
    fix f'
    show "weight ?s f' \<le> 1"
      using bounded_weight [OF invariant_parts(4) [OF inv], of f'] w
      by (auto simp: weight_ensure_future coro_ref_def)
  next
    fix r' assume "r' \<in> set (runs ?s)"
    then have r': "r' \<in> set (runs s)" by (simp add: f)
    have fam: "family ?s (rerun_of s r') = family s (rerun_of s r')"
      by (rule family_cong [OF o(2) f(1)])
    have pb: "policy_bound ?s r' = policy_bound s r'"
      by (rule policy_bound_cong [OF o(3) f(7)])
    show "length (family ?s (rerun_of ?s r')) + pending_reruns ?s (rerun_of ?s r')
            \<le> policy_bound ?s r'"
    proof (cases "rerun_of s r = rerun_of s r'")
      case True
      have "inst_of s r' = inst_of s r"
        using families_inst [OF invariant_parts(3) [OF inv] r' r] True by simp
      then have "policy_bound s r' = count (reruns job) + 1"
        using job by (simp add: policy_bound_def inst_of_def)
      moreover have "pending_reruns s (rerun_of s r') = 0"
        using weight_zero_pending [OF w] True by simp
      ultimately show ?thesis
        using len True by (simp add: o(2) fam pb pending_ensure_future coro_ref_def)
    next
      case False
      then show ?thesis
        using bounded_family [OF invariant_parts(4) [OF inv] r']
        by (simp add: o(2) fam pb pending_ensure_future coro_ref_def)
    qed
  qed
  ultimately show ?thesis by (simp add: invariant_def)
qed

lemma invariant_pop:
  assumes inv: "invariant s" and lt: "loop_tasks s = Coro_rerun r time # rest"
  shows "invariant (s\<lparr>loop_tasks := rest\<rparr>)"
    and "r \<in> set (runs s)"
    and "weight (s\<lparr>loop_tasks := rest\<rparr>) (rerun_of s r) = 0"
    and "length (family s (rerun_of s r)) < policy_bound s r"
proof -
  let ?s = "s\<lparr>loop_tasks := rest\<rparr>"
  have h: "heap ?s = heap s" by simp
  note o = obs_heap [OF h]
  show r: "r \<in> set (runs s)"
    using invariant_parts(2) [OF inv] lt by (simp add: referenced_def coro_ref_def)
  have wt: "weight s f = weight ?s f + (if rerun_of s r = f then 1 else 0)" for f
    by (simp add: weight_def pending_reruns_def lt rerun_of_def coro_ref_def)
  have pd: "pending_reruns s f = pending_reruns ?s f + (if rerun_of s r = f then 1 else 0)" for f
    by (simp add: pending_reruns_def lt rerun_of_def coro_ref_def)
  show w0: "weight ?s (rerun_of s r) = 0"
    using bounded_weight [OF invariant_parts(4) [OF inv], of "rerun_of s r"]
    by (simp add: wt [of "rerun_of s r"])
  show "length (family s (rerun_of s r)) < policy_bound s r"
    using bounded_family [OF invariant_parts(4) [OF inv] r]
    by (simp add: pd [of "rerun_of s r"])
  have "stored ?s"
    using invariant_parts(1) [OF inv] stored_cong [OF o(1,2), of ] by simp
  moreover have "referenced ?s"
    using invariant_parts(2) [OF inv] by (simp add: referenced_def lt)
  moreover have "families ?s"
    using invariant_parts(3) [OF inv] families_cong [OF o] by simp
  moreover have "bounded ?s"
  proof (rule boundedI)
    fix f
    show "weight ?s f \<le> 1"
      using bounded_weight [OF invariant_parts(4) [OF inv], of f] by (simp add: wt [of f])
  next
    fix r' assume "r' \<in> set (runs ?s)"
    then have r': "r' \<in> set (runs s)" by simp
    show "length (family ?s (rerun_of ?s r')) + pending_reruns ?s (rerun_of ?s r')
            \<le> policy_bound ?s r'"
      using bounded_family [OF invariant_parts(4) [OF inv] r']
        family_cong [OF o(2), of "rerun_of s r'"] policy_bound_cong [OF o(3), of r']
      by (simp add: o(2) pd [of "rerun_of s r'"])
  qed
  ultimately show "invariant ?s" by (simp add: invariant_def)
qed

subsection \<open>The timed queue and the callbacks\<close>

lemma invariant_same_heap:
  assumes inv: "invariant s" and h: "heap s' = heap s"
    and f: "runs s' = runs s" "next_ref s' = next_ref s" "next_run_id s' = next_run_id s"
      "jobs s' = jobs s" "loop_tasks s' = loop_tasks s"
    and ref: "referenced s'"
    and w: "\<And>f. weight s' f \<le> 1"
  shows "invariant s'"
proof -
  note o = obs_heap [OF h]
  have "stored s'"
    using invariant_parts(1) [OF inv] stored_cong [OF o(1,2) f(1,2,3)] by simp
  moreover have "families s'"
    using invariant_parts(3) [OF inv] families_cong [OF o f(1)] by simp
  moreover have "bounded s'"
  proof (rule boundedI)
    fix r assume "r \<in> set (runs s')"
    then have r: "r \<in> set (runs s)" by (simp add: f)
    show "length (family s' (rerun_of s' r)) + pending_reruns s' (rerun_of s' r)
            \<le> policy_bound s' r"
      using bounded_family [OF invariant_parts(4) [OF inv] r]
        family_cong [OF o(2) f(1), of "rerun_of s r"]
        pending_cong [OF o(2) f(5), of "rerun_of s r"]
        policy_bound_cong [OF o(3) f(4), of r]
      by (simp add: o(2))
  qed (rule w)
  ultimately show ?thesis using ref by (simp add: invariant_def)
qed

lemma weight_unschedule:
  "weight (ScheduledRuns_unschedule r s) f \<le> weight s f"
proof -
  have "length [e \<leftarrow> scheduled s. snd e \<noteq> r \<and> rerun_of s (snd e) = f]
          \<le> length [e \<leftarrow> scheduled s. rerun_of s (snd e) = f]"
    by (rule length_filter_imp) simp
  then show ?thesis
    by (simp add: weight_def pending_reruns_def ScheduledRuns_unschedule_def rerun_of_def)
qed

lemma weight_unschedule_less:
  assumes "r \<in> snd ` set (scheduled s)"
  shows "weight (ScheduledRuns_unschedule r s) (rerun_of s r) < weight s (rerun_of s r)"
proof -
  from assms obtain e where e: "e \<in> set (scheduled s)" "snd e = r" by auto
  have "length [e \<leftarrow> scheduled s. snd e \<noteq> r \<and> rerun_of s (snd e) = rerun_of s r]
          < length [e \<leftarrow> scheduled s. rerun_of s (snd e) = rerun_of s r]"
    using e by (intro length_filter_imp_less [of e]) simp_all
  then show ?thesis
    by (simp add: weight_def pending_reruns_def ScheduledRuns_unschedule_def rerun_of_def)
qed

lemma invariant_unschedule:
  assumes inv: "invariant s"
  shows "invariant (ScheduledRuns_unschedule r s)"
proof (rule invariant_same_heap [OF inv])
  show "referenced (ScheduledRuns_unschedule r s)"
    using invariant_parts(2) [OF inv]
    by (auto simp: referenced_def ScheduledRuns_unschedule_def)
  show "weight (ScheduledRuns_unschedule r s) f \<le> 1" for f
    using weight_unschedule [of r s f] bounded_weight [OF invariant_parts(4) [OF inv], of f]
    by (rule le_trans)
qed (simp_all add: ScheduledRuns_unschedule_def)

lemma weight_zero_unschedule:
  assumes inv: "invariant s" and r: "r \<in> snd ` set (scheduled s)"
  shows "weight (ScheduledRuns_unschedule r s) (rerun_of s r) = 0"
  using weight_unschedule_less [OF r]
    bounded_weight [OF invariant_parts(4) [OF inv], of "rerun_of s r"]
  by simp

lemma weight_schedule:
  "weight (ScheduledRuns_schedule time r s) f
     \<le> weight s f + (if rerun_of s r = f then 1 else 0)"
  by (simp add: weight_def pending_reruns_def ScheduledRuns_schedule_def rerun_of_def)

lemma invariant_schedule:
  assumes inv: "invariant s" and r: "r \<in> set (runs s)" and w: "weight s (rerun_of s r) = 0"
  shows "invariant (ScheduledRuns_schedule time r s)"
proof (rule invariant_same_heap [OF inv])
  show "referenced (ScheduledRuns_schedule time r s)"
    using invariant_parts(2) [OF inv] r
    by (auto simp: referenced_def ScheduledRuns_schedule_def)
  show "weight (ScheduledRuns_schedule time r s) f \<le> 1" for f
    using weight_schedule [of time r s f] bounded_weight [OF invariant_parts(4) [OF inv], of f] w
    by (auto split: if_splits)
qed (simp_all add: ScheduledRuns_schedule_def)

lemma weight_callback:
  assumes "\<And>c. c \<in> set (callbacks s) \<Longrightarrow> fst c < next_future s"
  shows "weight (Apsis__wait r (next_future s)
           (s\<lparr>futures := (futures s)(next_future s := PENDING),
              next_future := Suc (next_future s)\<rparr>)) f
         = weight s f + (if rerun_of s r = f then 1 else 0)"
proof -
  have "[c \<leftarrow> callbacks s. ((futures s)(next_future s := PENDING)) (fst c) = PENDING
                \<and> rerun (heap s (snd c)) = f]
        = [c \<leftarrow> callbacks s. futures s (fst c) = PENDING \<and> rerun (heap s (snd c)) = f]"
  proof (intro filter_cong refl)
    fix c assume "c \<in> set (callbacks s)"
    then have "fst c \<noteq> next_future s" using assms [of c] by simp
    then show "(((futures s)(next_future s := PENDING)) (fst c) = PENDING
                  \<and> rerun (heap s (snd c)) = f)
               = (futures s (fst c) = PENDING \<and> rerun (heap s (snd c)) = f)"
      by simp
  qed
  then show ?thesis
    by (simp add: weight_def pending_reruns_def Apsis__wait_def rerun_of_def)
qed

lemma invariant_callback:
  assumes inv: "invariant s" and r: "r \<in> set (runs s)" and w: "weight s (rerun_of s r) = 0"
  shows "invariant (Apsis__wait r (next_future s)
           (s\<lparr>futures := (futures s)(next_future s := PENDING),
              next_future := Suc (next_future s)\<rparr>))"
proof (rule invariant_same_heap [OF inv])
  let ?s = "Apsis__wait r (next_future s)
           (s\<lparr>futures := (futures s)(next_future s := PENDING),
              next_future := Suc (next_future s)\<rparr>)"
  have lt: "\<And>c. c \<in> set (callbacks s) \<Longrightarrow> fst c < next_future s"
    using invariant_parts(2) [OF inv] by (simp add: referenced_def)
  have "next_future s \<notin> fst ` set (callbacks s)"
  proof
    assume "next_future s \<in> fst ` set (callbacks s)"
    then obtain c where "c \<in> set (callbacks s)" "fst c = next_future s" by auto
    with lt [of c] show False by simp
  qed
  then show "referenced ?s"
    using invariant_parts(2) [OF inv] r lt
    by (auto simp: referenced_def Apsis__wait_def less_Suc_eq)
  show "weight ?s f \<le> 1" for f
    using bounded_weight [OF invariant_parts(4) [OF inv], of f] w
    by (auto simp: weight_callback [OF lt])
qed (simp_all add: Apsis__wait_def)

subsection \<open>A run is made and added to the store\<close>

lemma add_run_fields:
  fixes s i rr
  defines "n \<equiv> next_ref s"
  defines "s2 \<equiv> snd (Runs_add (next_ref s) (snd (Run_new i rr s)))"
  shows "fst (Run_new i rr s) = n"
    and "fst (Runs_add n (snd (Run_new i rr s))) = Inr ()"
    and "runs s2 = runs s @ [n]"
    and "next_ref s2 = Suc n"
    and "next_run_id s2 = Suc (next_run_id s)"
    and "scheduled s2 = scheduled s"
    and "callbacks s2 = callbacks s"
    and "futures s2 = futures s"
    and "next_future s2 = next_future s"
    and "loop_tasks s2 = loop_tasks s"
    and "jobs s2 = jobs s"
    and "\<And>r. r \<noteq> n \<Longrightarrow> heap s2 r = heap s r"
    and "run_id_of s2 n = Some (next_run_id s)"
    and "rerun_of s2 n = (case rr of None \<Rightarrow> Some (next_run_id s) | Some x \<Rightarrow> Some x)"
    and "inst_of s2 n = i"
  by (simp_all add: n_def s2_def Run_new_def Runs_add_def Run_init_def Let_def run_id_of_def
      rerun_of_def inst_of_def split: option.split)

lemma referenced_runs:
  assumes "referenced s"
  shows "e \<in> set (scheduled s) \<Longrightarrow> snd e \<in> set (runs s)"
    and "c \<in> set (callbacks s) \<Longrightarrow> snd c \<in> set (runs s)"
    and "t \<in> set (loop_tasks s) \<Longrightarrow> coro_ref t \<in> set (runs s)"
  using assms unfolding referenced_def by blast+

lemma weight_none:
  assumes ref: "referenced s" and none: "\<And>r. r \<in> set (runs s) \<Longrightarrow> rerun_of s r \<noteq> f"
  shows "weight s f = 0"
proof -
  have "[e \<leftarrow> scheduled s. rerun_of s (snd e) = f] = []"
    using none [OF referenced_runs(1) [OF ref]] by (simp add: filter_empty_conv)
  moreover have "[c \<leftarrow> callbacks s. futures s (fst c) = PENDING \<and> rerun_of s (snd c) = f] = []"
    using none [OF referenced_runs(2) [OF ref]] by (simp add: filter_empty_conv)
  moreover have "[c \<leftarrow> loop_tasks s. rerun_of s (coro_ref c) = f] = []"
    using none [OF referenced_runs(3) [OF ref]] by (simp add: filter_empty_conv)
  ultimately show ?thesis
    by (simp add: weight_def pending_reruns_def)
qed

lemma policy_bound_pos: "1 \<le> policy_bound s r"
  by (simp add: policy_bound_def split: option.split)

lemma invariant_add_run:
  fixes s i rr
  defines "n \<equiv> next_ref s"
  defines "s2 \<equiv> snd (Runs_add (next_ref s) (snd (Run_new i rr s)))"
  assumes inv: "invariant s"
    and rr: "rr = None \<or>
             (\<exists>r0\<in>set (runs s). rr = rerun_of s r0 \<and> i = inst_of s r0 \<and> weight s rr = 0 \<and>
                length (family s rr) < policy_bound s r0)"
  shows "invariant s2" and "n \<in> set (runs s2)" and "weight s2 (rerun_of s2 n) = 0"
proof -
  note fl = add_run_fields [where s = s and i = i and rr = rr, folded n_def s2_def]
  note st = invariant_parts(1) [OF inv] and rf = invariant_parts(2) [OF inv]
    and fm = invariant_parts(3) [OF inv] and bd = invariant_parts(4) [OF inv]
  let ?nid = "next_run_id s"
  define fn where "fn = rerun_of s2 n"
  have old_lt: "r < n" if "r \<in> set (runs s)" for r
    using st that by (simp add: stored_def n_def)
  have old_id: "\<exists>j. run_id_of s r = Some j \<and> j < ?nid" if "r \<in> set (runs s)" for r
    using st that by (simp add: stored_def)
  have old_rr: "\<exists>f. rerun_of s r = Some f \<and> f < ?nid" if "r \<in> set (runs s)" for r
    using st that by (simp add: stored_def)
  have old: "run_id_of s2 r = run_id_of s r" "rerun_of s2 r = rerun_of s r"
    "inst_of s2 r = inst_of s r" if "r \<in> set (runs s)" for r
    using fl(12) [of r] old_lt [OF that]
    by (simp_all add: run_id_of_def rerun_of_def inst_of_def)
  show n_in: "n \<in> set (runs s2)" by (simp add: fl)
  note sched = referenced_runs(1) [OF rf] and cbs = referenced_runs(2) [OF rf]
    and tsk = referenced_runs(3) [OF rf]
  have pend: "pending_reruns s2 f = pending_reruns s f" for f
  proof -
    have "[c \<leftarrow> loop_tasks s. rerun_of s2 (coro_ref c) = f]
            = [c \<leftarrow> loop_tasks s. rerun_of s (coro_ref c) = f]"
      by (intro filter_cong refl) (simp add: old(2) [OF tsk])
    then show ?thesis by (simp add: pending_reruns_def fl)
  qed
  have wt: "weight s2 f = weight s f" for f
  proof -
    have "[e \<leftarrow> scheduled s. rerun_of s2 (snd e) = f] = [e \<leftarrow> scheduled s. rerun_of s (snd e) = f]"
      by (intro filter_cong refl) (simp add: old(2) [OF sched])
    moreover have "[c \<leftarrow> callbacks s. futures s (fst c) = PENDING \<and> rerun_of s2 (snd c) = f]
            = [c \<leftarrow> callbacks s. futures s (fst c) = PENDING \<and> rerun_of s (snd c) = f]"
      by (intro filter_cong refl) (simp add: old(2) [OF cbs])
    ultimately show ?thesis by (simp add: weight_def fl pend)
  qed
  have fam: "family s2 f = family s f @ (if fn = f then [n] else [])" for f
  proof -
    have "[r \<leftarrow> runs s. rerun_of s2 r = f] = [r \<leftarrow> runs s. rerun_of s r = f]"
      by (intro filter_cong refl) (simp add: old(2))
    then show ?thesis
      by (simp add: family_def Runs_query_rerun_def rerun_of_def [symmetric] fl(3) fn_def)
  qed
  have pb_old: "policy_bound s2 r = policy_bound s r" if "r \<in> set (runs s)" for r
    using old(3) [OF that] by (simp add: policy_bound_def inst_of_def fl(11))
  have fn_cases:
    "(rr = None \<and> fn = Some ?nid \<and> (\<forall>r\<in>set (runs s). rerun_of s r \<noteq> fn)) \<or>
     (\<exists>r0\<in>set (runs s). fn = rerun_of s r0 \<and> i = inst_of s r0 \<and> weight s fn = 0 \<and>
        length (family s fn) < policy_bound s r0)"
  proof (cases "rr = None")
    case True
    have "rerun_of s r \<noteq> Some ?nid" if "r \<in> set (runs s)" for r
      using old_rr [OF that] by auto
    then show ?thesis using True by (simp add: fn_def fl(14))
  next
    case False
    with rr obtain r0 where r0: "r0 \<in> set (runs s)" "rr = rerun_of s r0" "i = inst_of s r0"
      "weight s rr = 0" "length (family s rr) < policy_bound s r0"
      by blast
    from old_rr [OF r0(1)] r0(2) obtain f where "rr = Some f" by auto
    then have "fn = rr" by (simp add: fn_def fl(14))
    with r0 show ?thesis by blast
  qed
  have w0: "weight s fn = 0"
    using fn_cases
  proof
    assume "rr = None \<and> fn = Some ?nid \<and> (\<forall>r\<in>set (runs s). rerun_of s r \<noteq> fn)"
    then have "\<And>r. r \<in> set (runs s) \<Longrightarrow> rerun_of s r \<noteq> fn" by blast
    then show ?thesis by (rule weight_none [OF rf])
  next
    assume "\<exists>r0\<in>set (runs s). fn = rerun_of s r0 \<and> i = inst_of s r0 \<and> weight s fn = 0 \<and>
              length (family s fn) < policy_bound s r0"
    then show ?thesis by blast
  qed
  show "weight s2 (rerun_of s2 n) = 0"
    using w0 by (simp add: wt fn_def)
  have same_inst: "inst_of s r = i" if "r \<in> set (runs s)" "rerun_of s r = fn" for r
    using fn_cases
  proof
    assume "rr = None \<and> fn = Some ?nid \<and> (\<forall>r\<in>set (runs s). rerun_of s r \<noteq> fn)"
    with that show ?thesis by blast
  next
    assume "\<exists>r0\<in>set (runs s). fn = rerun_of s r0 \<and> i = inst_of s r0 \<and> weight s fn = 0 \<and>
              length (family s fn) < policy_bound s r0"
    then obtain r0 where r0: "r0 \<in> set (runs s)" "fn = rerun_of s r0" "i = inst_of s r0"
      by blast
    have "rerun_of s r = rerun_of s r0" using that(2) r0(2) by simp
    from families_inst [OF fm that(1) r0(1) this] r0(3) show ?thesis by simp
  qed
  have "stored s2"
    unfolding stored_def
  proof
    fix r assume "r \<in> set (runs s2)"
    then consider "r \<in> set (runs s)" | "r = n" by (auto simp: fl(3))
    then show "r < next_ref s2 \<and> (\<exists>j. run_id_of s2 r = Some j \<and> j < next_run_id s2) \<and>
               (\<exists>f. rerun_of s2 r = Some f \<and> f < next_run_id s2)"
    proof cases
      case 1
      then show ?thesis
        using old_lt [OF 1] old_id [OF 1] old_rr [OF 1]
        by (auto simp: old fl(4,5) less_Suc_eq)
    next
      case 2
      have "\<exists>f. fn = Some f \<and> f < Suc ?nid"
        using fn_cases old_rr by (auto simp: less_Suc_eq)
      then show ?thesis
        using 2 by (simp add: fl(4,5,13) fn_def)
    qed
  qed
  moreover have "referenced s2"
    using rf by (auto simp: referenced_def fl)
  moreover have "families s2"
    unfolding families_def
  proof (intro conjI ballI impI)
    fix r assume "r \<in> set (runs s2)"
    then consider "r \<in> set (runs s)" | "r = n" by (auto simp: fl(3))
    then show "\<exists>orig\<in>set (runs s2). run_id_of s2 orig = rerun_of s2 r \<and>
                 rerun_of s2 orig = rerun_of s2 r"
    proof cases
      case 1
      with fm obtain orig where "orig \<in> set (runs s)" "run_id_of s orig = rerun_of s r"
        "rerun_of s orig = rerun_of s r"
        unfolding families_def by blast
      then show ?thesis using 1 by (auto simp: old fl(3))
    next
      case 2
      show ?thesis
        using fn_cases
      proof
        assume "rr = None \<and> fn = Some ?nid \<and> (\<forall>r\<in>set (runs s). rerun_of s r \<noteq> fn)"
        then have "run_id_of s2 n = rerun_of s2 n" by (simp add: fl(13) fn_def)
        then show ?thesis using 2 n_in by blast
      next
        assume "\<exists>r0\<in>set (runs s). fn = rerun_of s r0 \<and> i = inst_of s r0 \<and> weight s fn = 0 \<and>
                  length (family s fn) < policy_bound s r0"
        then obtain r0 where r0: "r0 \<in> set (runs s)" "fn = rerun_of s r0" by blast
        with fm obtain orig where "orig \<in> set (runs s)" "run_id_of s orig = rerun_of s r0"
          "rerun_of s orig = rerun_of s r0"
          unfolding families_def by blast
        then show ?thesis using 2 r0 by (auto simp: old fl(3) fn_def)
      qed
    qed
  next
    fix r r' assume a: "r \<in> set (runs s2)" "r' \<in> set (runs s2)"
      "rerun_of s2 r = rerun_of s2 r'"
    have m: "r \<in> set (runs s) \<or> r = n" "r' \<in> set (runs s) \<or> r' = n"
      using a(1,2) by (simp_all add: fl(3)) blast+
    show "inst_of s2 r = inst_of s2 r'"
    proof (cases "r = n")
      case rn: True
      show ?thesis
      proof (cases "r' = n")
        case True
        with rn show ?thesis by simp
      next
        case False
        with m(2) have r': "r' \<in> set (runs s)" by simp
        have "rerun_of s r' = fn" using a(3) rn old(2) [OF r'] by (simp add: fn_def)
        from same_inst [OF r' this] show ?thesis using rn by (simp add: old(3) [OF r'] fl(15))
      qed
    next
      case False
      with m(1) have r: "r \<in> set (runs s)" by simp
      show ?thesis
      proof (cases "r' = n")
        case True
        have "rerun_of s r = fn" using a(3) True old(2) [OF r] by (simp add: fn_def)
        from same_inst [OF r this] show ?thesis using True by (simp add: old(3) [OF r] fl(15))
      next
        case False
        with m(2) have r': "r' \<in> set (runs s)" by simp
        have "rerun_of s r = rerun_of s r'" using a(3) old(2) [OF r] old(2) [OF r'] by simp
        from families_inst [OF fm r r' this] show ?thesis
          by (simp add: old(3) [OF r] old(3) [OF r'])
      qed
    qed
  qed
  moreover have "bounded s2"
  proof (rule boundedI)
    fix f show "weight s2 f \<le> 1"
      using bounded_weight [OF bd, of f] by (simp add: wt)
  next
    fix r assume "r \<in> set (runs s2)"
    then consider "r \<in> set (runs s)" "rerun_of s r \<noteq> fn"
      | "r \<in> set (runs s)" "rerun_of s r = fn" | "r = n"
      by (auto simp: fl(3))
    then show "length (family s2 (rerun_of s2 r)) + pending_reruns s2 (rerun_of s2 r)
                 \<le> policy_bound s2 r"
    proof cases
      case 1
      then show ?thesis
        using bounded_family [OF bd 1(1)] by (simp add: old fam pend pb_old)
    next
      case 2
      have pb: "policy_bound s2 r = policy_bound s r" by (rule pb_old [OF 2(1)])
      have "\<exists>r0\<in>set (runs s). fn = rerun_of s r0 \<and> i = inst_of s r0 \<and> weight s fn = 0 \<and>
              length (family s fn) < policy_bound s r0"
        using fn_cases 2 by blast
      then obtain r0 where r0: "r0 \<in> set (runs s)" "fn = rerun_of s r0" "i = inst_of s r0"
        "length (family s fn) < policy_bound s r0"
        by blast
      have "policy_bound s r = policy_bound s r0"
        using same_inst [OF 2] r0(3) by (intro policy_bound_inst) simp
      then show ?thesis
        using r0(4) weight_zero_pending [OF w0] 2 by (simp add: old fam pend pb)
    next
      case 3
      have "length (family s fn) + 1 \<le> policy_bound s2 n"
        using fn_cases
      proof
        assume a: "rr = None \<and> fn = Some ?nid \<and> (\<forall>r\<in>set (runs s). rerun_of s r \<noteq> fn)"
        then have "family s fn = []"
          by (auto simp: family_def Runs_query_rerun_def rerun_of_def [symmetric] filter_empty_conv)
        then show ?thesis using policy_bound_pos [of s2 n] by simp
      next
        assume "\<exists>r0\<in>set (runs s). fn = rerun_of s r0 \<and> i = inst_of s r0 \<and> weight s fn = 0 \<and>
                  length (family s fn) < policy_bound s r0"
        then obtain r0 where r0: "r0 \<in> set (runs s)" "i = inst_of s r0"
          "length (family s fn) < policy_bound s r0"
          by blast
        have "policy_bound s2 n = policy_bound s r0"
          using r0(2) fl(15) by (simp add: policy_bound_def inst_of_def fl(11))
        then show ?thesis using r0(3) by simp
      qed
      then show ?thesis
        using weight_zero_pending [OF w0] 3 by (simp add: fam pend fn_def [symmetric])
    qed
  qed
  ultimately show "invariant s2" by (simp add: invariant_def)
qed

subsection \<open>The methods keep the invariant\<close>

lemma unchanged_at_rest: "unchanged s s' \<Longrightarrow> at_rest s r \<Longrightarrow> at_rest s' r"
  by (simp add: at_rest_def unchanged_weight unchanged_runs unchanged_rerun_of)

lemma del_running_task_unchanged: "unchanged (snd res) (snd (del_running_task r res))"
proof (cases res)
  case (Pair x s)
  show ?thesis
  proof (cases x)
    case (Inl e)
    with Pair show ?thesis by (simp add: del_running_task_def unchanged_refl)
  next
    case (Inr u)
    with Pair show ?thesis
      by (cases "dict_del (run_id (heap s r)) (running_tasks s)")
        (simp_all add: del_running_task_def unchanged_refl unchanged_running_tasks)
  qed
qed

lemma invariant_transition:
  assumes inv: "invariant s" and rest: "at_rest s r"
  shows "invariant (snd (Apsis_transition r st outs m ts msg s))"
  using transition_effect [of s r st outs m ts msg]
proof
  assume "unchanged s (snd (Apsis_transition r st outs m ts msg s))"
  then show ?thesis using inv by (rule unchanged_invariant)
next
  assume "\<exists>time job. map_of (jobs s) (job_id (inst_of s r)) = Some job \<and>
      length (family s (rerun_of s r)) \<le> count (reruns job) \<and>
      unchanged (ensure_future (Coro_rerun r time) s) (snd (Apsis_transition r st outs m ts msg s))"
  then obtain time job where j: "map_of (jobs s) (job_id (inst_of s r)) = Some job"
    and l: "length (family s (rerun_of s r)) \<le> count (reruns job)"
    and u: "unchanged (ensure_future (Coro_rerun r time) s)
              (snd (Apsis_transition r st outs m ts msg s))"
    by blast
  have "invariant (ensure_future (Coro_rerun r time) s)"
    using inv rest j l by (intro invariant_enqueue) (simp_all add: at_rest_def)
  with u show ?thesis by (rule unchanged_invariant)
qed

lemma invariant_wait_done:
  assumes inv: "invariant s" and rest: "at_rest s r"
  shows "invariant (snd (Apsis__wait_done r oc s))"
proof -
  have t: "invariant (snd (del_running_task r (Apsis_transition r st outs m ts msg s)))"
    for st outs m ts msg
    using del_running_task_unchanged invariant_transition [OF inv rest]
    by (rule unchanged_invariant)
  show ?thesis
  proof (cases oc)
    case Raise_CancelledError
    then show ?thesis
      using unchanged_invariant [OF unchanged_info inv] by (simp add: Apsis__wait_done_def)
  next
    case (Raise_other e)
    then show ?thesis using inv by (simp add: Apsis__wait_done_def)
  next
    case (Result_success m ts outs)
    then show ?thesis using t by (simp add: Apsis__wait_done_def)
  next
    case (Raise_ProgramFailure msg m ts outs)
    then show ?thesis using t by (simp add: Apsis__wait_done_def)
  next
    case (Raise_ProgramError msg m ts outs)
    then show ?thesis using t by (simp add: Apsis__wait_done_def)
  qed
qed

lemma invariant_start:
  assumes inv: "invariant s" and rest: "at_rest s r"
  shows "invariant (snd (Apsis__start r sr s))"
proof -
  have tail: "invariant
      (snd (case sr of
             Start_ProgramError msg m ts outs \<Rightarrow>
               Apsis_transition r STATE_error outs m ts (Some msg) s1
           | Start_raises e \<Rightarrow> (Inl e, s1)
           | Start_returns m ts \<Rightarrow>
               (case Apsis_transition r STATE_running [] m ts None s1 of
                  (Inl e, s2) \<Rightarrow> (Inl e, s2)
                | (Inr u, s2) \<Rightarrow>
                    (let future = next_future s2;
                         s3 = s2\<lparr>futures := (futures s2)(future := PENDING),
                                 next_future := Suc future\<rparr>
                     in (Inr (), Apsis__wait r future s3)))))"
    if u1: "unchanged s s1" for s1
  proof -
    have i1: "invariant s1" using u1 inv by (rule unchanged_invariant)
    have r1: "at_rest s1 r" using u1 rest by (rule unchanged_at_rest)
    show ?thesis
    proof (cases sr)
      case (Start_ProgramError msg m ts outs)
      then show ?thesis using invariant_transition [OF i1 r1] by simp
    next
      case (Start_raises e)
      then show ?thesis using i1 by simp
    next
      case (Start_returns m ts)
      obtain x s2 where t: "Apsis_transition r STATE_running [] m ts None s1 = (x, s2)"
        by (cases "Apsis_transition r STATE_running [] m ts None s1")
      have u2: "unchanged s1 s2"
        using transition_other [of STATE_running s1 r "[]" m ts None] t by simp
      have i2: "invariant s2" using u2 i1 by (rule unchanged_invariant)
      have r2: "at_rest s2 r" using u2 r1 by (rule unchanged_at_rest)
      have "invariant (Apsis__wait r (next_future s2)
               (s2\<lparr>futures := (futures s2)(next_future s2 := PENDING),
                   next_future := Suc (next_future s2)\<rparr>))"
        using i2 r2 by (intro invariant_callback) (simp_all add: at_rest_def)
      then show ?thesis
        using Start_returns t i2 by (cases x) (simp_all add: Let_def)
    qed
  qed
  show ?thesis
  proof (cases "program (heap s r) = None")
    case False
    show ?thesis
      using tail [OF unchanged_refl] by (simp add: Apsis__start_def False)
  next
    case True
    show ?thesis
    proof (cases "Apsis__get_program r s")
      case (Inl e)
      show ?thesis using inv by (simp add: Apsis__start_def True Inl)
    next
      case (Inr p)
      show ?thesis
        using tail [OF unchanged_program [of s r "Some p"]]
        by (simp add: Apsis__start_def True Inr)
    qed
  qed
qed

lemma invariant_schedule_tail:
  assumes inv: "invariant s" and rest: "at_rest s r"
  shows "invariant
     (snd (case time of
             None \<Rightarrow> Apsis__start r sr s
           | Some t \<Rightarrow>
               Apsis_transition r STATE_scheduled [] [] [(''schedule'', Some t)] None
                 (ScheduledRuns_schedule t r s)))"
proof (cases time)
  case None
  then show ?thesis using invariant_start [OF inv rest] by simp
next
  case (Some t)
  have "invariant (ScheduledRuns_schedule t r s)"
    using inv rest by (intro invariant_schedule) (simp_all add: at_rest_def)
  then have "invariant (snd (Apsis_transition r STATE_scheduled [] [] [(''schedule'', Some t)] None
                 (ScheduledRuns_schedule t r s)))"
    using transition_other [of STATE_scheduled] unchanged_invariant by blast
  with Some show ?thesis by simp
qed

lemma invariant_schedule_new:
  assumes inv: "invariant s"
    and rr: "rr = None \<or>
             (\<exists>r0\<in>set (runs s). rr = rerun_of s r0 \<and> i = inst_of s r0 \<and> weight s rr = 0 \<and>
                length (family s rr) < policy_bound s r0)"
  shows "invariant (snd (Apsis_schedule time (next_ref s) sr (snd (Run_new i rr s))))"
proof -
  let ?a = "Runs_add (next_ref s) (snd (Run_new i rr s))"
  have a: "?a = (Inr (), snd ?a)"
    using add_run_fields(2) [of s i rr] by (cases ?a) simp
  have "invariant (snd ?a)" "at_rest (snd ?a) (next_ref s)"
    using invariant_add_run [OF inv rr] by (simp_all add: at_rest_def)
  from invariant_schedule_tail [OF this, where time = time and sr = sr]
  show ?thesis
    unfolding Apsis_schedule_def by (subst a) simp
qed

subsection \<open>The methods keep the runs\<close>

lemma same_runs_refl: "same_runs s s"
  by (simp add: same_runs_def)

lemma same_runs_trans: "same_runs a b \<Longrightarrow> same_runs b c \<Longrightarrow> same_runs a c"
  by (simp add: same_runs_def)

lemma unchanged_same_runs: "unchanged s s' \<Longrightarrow> same_runs s s'"
  by (simp add: same_runs_def unchanged_def)

lemma same_runs_heap:
  "heap s' = heap s \<Longrightarrow> runs s' = runs s \<Longrightarrow> jobs s' = jobs s \<Longrightarrow> same_runs s s'"
  by (simp add: same_runs_def run_id_of_def rerun_of_def inst_of_def fun_eq_iff)

lemma same_runs_transition: "same_runs s (snd (Apsis_transition r st outs m ts msg s))"
  using transition_effect [of s r st outs m ts msg]
proof
  assume "unchanged s (snd (Apsis_transition r st outs m ts msg s))"
  then show ?thesis by (rule unchanged_same_runs)
next
  assume "\<exists>time job. map_of (jobs s) (job_id (inst_of s r)) = Some job \<and>
      length (family s (rerun_of s r)) \<le> count (reruns job) \<and>
      unchanged (ensure_future (Coro_rerun r time) s) (snd (Apsis_transition r st outs m ts msg s))"
  then obtain time where
    "unchanged (ensure_future (Coro_rerun r time) s) (snd (Apsis_transition r st outs m ts msg s))"
    by blast
  then have "same_runs (ensure_future (Coro_rerun r time) s)
               (snd (Apsis_transition r st outs m ts msg s))"
    by (rule unchanged_same_runs)
  moreover have "same_runs s (ensure_future (Coro_rerun r time) s)"
    by (rule same_runs_heap) (simp_all add: ensure_future_def)
  ultimately show ?thesis using same_runs_trans by blast
qed

lemma same_runs_wait_done: "same_runs s (snd (Apsis__wait_done r oc s))"
proof -
  have t: "same_runs s (snd (del_running_task r (Apsis_transition r st outs m ts msg s)))"
    for st outs m ts msg
    using same_runs_trans [OF same_runs_transition
        unchanged_same_runs [OF del_running_task_unchanged]] .
  show ?thesis
  proof (cases oc)
    case Raise_CancelledError
    then show ?thesis
      using unchanged_same_runs [OF unchanged_info] by (simp add: Apsis__wait_done_def)
  next
    case (Raise_other e)
    then show ?thesis by (simp add: Apsis__wait_done_def same_runs_refl)
  next
    case (Result_success m ts outs)
    then show ?thesis using t by (simp add: Apsis__wait_done_def)
  next
    case (Raise_ProgramFailure msg m ts outs)
    then show ?thesis using t by (simp add: Apsis__wait_done_def)
  next
    case (Raise_ProgramError msg m ts outs)
    then show ?thesis using t by (simp add: Apsis__wait_done_def)
  qed
qed

lemma same_runs_start: "same_runs s (snd (Apsis__start r sr s))"
proof -
  have tail: "same_runs s
      (snd (case sr of
             Start_ProgramError msg m ts outs \<Rightarrow>
               Apsis_transition r STATE_error outs m ts (Some msg) s1
           | Start_raises e \<Rightarrow> (Inl e, s1)
           | Start_returns m ts \<Rightarrow>
               (case Apsis_transition r STATE_running [] m ts None s1 of
                  (Inl e, s2) \<Rightarrow> (Inl e, s2)
                | (Inr u, s2) \<Rightarrow>
                    (let future = next_future s2;
                         s3 = s2\<lparr>futures := (futures s2)(future := PENDING),
                                 next_future := Suc future\<rparr>
                     in (Inr (), Apsis__wait r future s3)))))"
    if u1: "same_runs s s1" for s1
  proof (cases sr)
    case (Start_ProgramError msg m ts outs)
    then show ?thesis using same_runs_trans [OF u1 same_runs_transition] by simp
  next
    case (Start_raises e)
    then show ?thesis using u1 by simp
  next
    case (Start_returns m ts)
    obtain x s2 where t: "Apsis_transition r STATE_running [] m ts None s1 = (x, s2)"
      by (cases "Apsis_transition r STATE_running [] m ts None s1")
    have u2: "same_runs s s2"
      using same_runs_trans [OF u1 same_runs_transition [of s1 r STATE_running "[]" m ts None]] t
      by simp
    have "same_runs s2 (Apsis__wait r (next_future s2)
               (s2\<lparr>futures := (futures s2)(next_future s2 := PENDING),
                   next_future := Suc (next_future s2)\<rparr>))"
      by (rule same_runs_heap) (simp_all add: Apsis__wait_def)
    from same_runs_trans [OF u2 this] show ?thesis
      using Start_returns t u2 by (cases x) (simp_all add: Let_def)
  qed
  show ?thesis
  proof (cases "program (heap s r) = None")
    case False
    show ?thesis
      using tail [OF same_runs_refl] by (simp add: Apsis__start_def False)
  next
    case True
    show ?thesis
    proof (cases "Apsis__get_program r s")
      case (Inl e)
      show ?thesis by (simp add: Apsis__start_def True Inl same_runs_refl)
    next
      case (Inr p)
      show ?thesis
        using tail [OF unchanged_same_runs [OF unchanged_program [of s r "Some p"]]]
        by (simp add: Apsis__start_def True Inr)
    qed
  qed
qed

lemma same_runs_schedule_tail:
  "same_runs s
     (snd (case time of
             None \<Rightarrow> Apsis__start r sr s
           | Some t \<Rightarrow>
               Apsis_transition r STATE_scheduled [] [] [(''schedule'', Some t)] None
                 (ScheduledRuns_schedule t r s)))"
proof (cases time)
  case None
  then show ?thesis using same_runs_start by simp
next
  case (Some t)
  have "same_runs s (ScheduledRuns_schedule t r s)"
    by (rule same_runs_heap) (simp_all add: ScheduledRuns_schedule_def)
  from same_runs_trans [OF this same_runs_transition] Some show ?thesis by simp
qed

lemma schedule_new:
  "snd (Apsis_schedule time (next_ref s) sr (snd (Run_new i rr s)))
     = snd (case time of
             None \<Rightarrow> Apsis__start (next_ref s) sr (snd (Runs_add (next_ref s) (snd (Run_new i rr s))))
           | Some t \<Rightarrow>
               Apsis_transition (next_ref s) STATE_scheduled [] [] [(''schedule'', Some t)] None
                 (ScheduledRuns_schedule t (next_ref s)
                    (snd (Runs_add (next_ref s) (snd (Run_new i rr s))))))"
proof -
  let ?a = "Runs_add (next_ref s) (snd (Run_new i rr s))"
  have a: "?a = (Inr (), snd ?a)"
    using add_run_fields(2) [of s i rr] by (cases ?a) simp
  show ?thesis
    unfolding Apsis_schedule_def by (subst a) simp
qed

lemma same_runs_schedule_new:
  "same_runs (snd (Runs_add (next_ref s) (snd (Run_new i rr s))))
     (snd (Apsis_schedule time (next_ref s) sr (snd (Run_new i rr s))))"
  unfolding schedule_new by (rule same_runs_schedule_tail)

lemma rerun_unfold:
  "snd (Apsis_rerun r time sr s)
     = snd (Apsis_schedule time (next_ref s) sr
         (snd (Run_new (inst (heap s r))
            (if rerun (heap s r) = None then run_id (heap s r) else rerun (heap s r))
            (info (Info_rerun (run_id (heap s r)) time) s))))"
  "fst (Apsis_rerun r time sr s) = Inr new_run \<Longrightarrow> new_run = next_ref s"
  by (auto simp: Apsis_rerun_def Let_def Run_new_def info_def split: prod.splits sum.splits)

subsection \<open>Every event keeps the invariant\<close>

lemma finished_not_pending: "finished oc \<noteq> PENDING"
  by (cases oc) (simp_all add: finished_def)

lemma distinct_fst_filter:
  assumes "distinct (map fst xs)"
  shows "map snd [c \<leftarrow> xs. fst c = k] = [] \<or>
         (\<exists>v. (k, v) \<in> set xs \<and> map snd [c \<leftarrow> xs. fst c = k] = [v])"
  using assms
proof (induction xs)
  case Nil
  show ?case by simp
next
  case (Cons a xs)
  obtain k' v' where a: "a = (k', v')" by (cases a)
  show ?case
  proof (cases "k' = k")
    case True
    have "k \<notin> fst ` set xs" using Cons.prems a True by simp
    then have "[c \<leftarrow> xs. fst c = k] = []" by (auto simp: filter_empty_conv)
    then show ?thesis using a True by simp
  next
    case False
    from Cons.prems have "distinct (map fst xs)" by simp
    from Cons.IH [OF this] show ?thesis using a False by auto
  qed
qed

lemma invariant_init: "invariant (Apsis_init js clk)"
  by (simp add: invariant_def stored_def referenced_def families_def bounded_def weight_def
      pending_reruns_def Apsis_init_def)

lemma invariant_step:
  assumes inv: "invariant s"
  shows "invariant (step ev s)"
proof (cases ev)
  case (Ev_schedule i time sr)
  have "invariant (snd (Apsis_schedule time (next_ref s) sr (snd (Run_new i None s))))"
    using inv by (rule invariant_schedule_new) simp
  then show ?thesis
    using Ev_schedule by (simp add: step_def Run_new_def)
next
  case (Ev_release r sr)
  show ?thesis
  proof (cases "r \<in> snd ` set (scheduled s)")
    case False
    then show ?thesis using Ev_release inv by (simp add: step_def)
  next
    case True
    let ?s0 = "ScheduledRuns_unschedule r s"
    have i0: "invariant ?s0" using inv by (rule invariant_unschedule)
    have "r \<in> set (runs s)"
      using True referenced_runs(1) [OF invariant_parts(2) [OF inv]] by auto
    moreover have "rerun_of ?s0 r = rerun_of s r"
      by (simp add: rerun_of_def ScheduledRuns_unschedule_def)
    ultimately have "at_rest ?s0 r"
      using weight_zero_unschedule [OF inv True]
      by (simp add: at_rest_def) (simp add: ScheduledRuns_unschedule_def)
    from invariant_start [OF i0 this] show ?thesis
      using Ev_release True by (simp add: step_def)
  qed
next
  case (Ev_done fut oc)
  show ?thesis
  proof (cases "fut < next_future s \<and> futures s fut = PENDING")
    case False
    then show ?thesis using Ev_done inv by (auto simp: step_def)
  next
    case True
    let ?s0 = "s\<lparr>futures := (futures s)(fut := finished oc)\<rparr>"
    have i0: "invariant ?s0"
      using inv finished_not_pending by (rule invariant_set_future)
    have d: "distinct (map fst (callbacks s))"
      using invariant_parts(2) [OF inv] by (simp add: referenced_def)
    from distinct_fst_filter [OF d, of fut]
    have "invariant (fold (\<lambda>r s'. snd (Apsis__wait_done r oc s'))
                  (map snd [c \<leftarrow> callbacks s. fst c = fut]) ?s0)"
    proof
      assume "map snd [c \<leftarrow> callbacks s. fst c = fut] = []"
      then show ?thesis using i0 by simp
    next
      assume "\<exists>v. (fut, v) \<in> set (callbacks s) \<and> map snd [c \<leftarrow> callbacks s. fst c = fut] = [v]"
      then obtain r where r: "(fut, r) \<in> set (callbacks s)"
        and l: "map snd [c \<leftarrow> callbacks s. fst c = fut] = [r]"
        by (elim exE conjE)
      have "r \<in> set (runs s)"
        using referenced_runs(2) [OF invariant_parts(2) [OF inv] r] by simp
      moreover have "weight ?s0 (rerun_of s r) = 0"
        using weight_set_future_less [OF finished_not_pending r, of oc] True
          bounded_weight [OF invariant_parts(4) [OF inv], of "rerun_of s r"]
        by simp
      moreover have "rerun_of ?s0 r = rerun_of s r"
        by (simp add: rerun_of_def)
      ultimately have "at_rest ?s0 r"
        by (simp add: at_rest_def)
      from invariant_wait_done [OF i0 this] show ?thesis
        by (simp add: l)
    qed
    then show ?thesis
      using Ev_done True by (simp add: step_def)
  qed
next
  case (Ev_task sr)
  show ?thesis
  proof (cases "loop_tasks s")
    case Nil
    then show ?thesis using Ev_task inv by (simp add: step_def)
  next
    case (Cons c rest)
    obtain r time where c: "c = Coro_rerun r time" by (cases c)
    let ?s0 = "s\<lparr>loop_tasks := rest\<rparr>"
    let ?s1 = "info (Info_rerun (run_id (heap ?s0 r)) time) ?s0"
    have lt: "loop_tasks s = Coro_rerun r time # rest" using Cons c by simp
    note pop = invariant_pop [OF inv lt]
    have u: "unchanged ?s0 ?s1" by (rule unchanged_info)
    have i1: "invariant ?s1" using u pop(1) by (rule unchanged_invariant)
    have r1: "r \<in> set (runs ?s1)" using pop(2) by (simp add: info_def)
    have o1: "rerun_of ?s1 r = rerun_of s r" "inst_of ?s1 r = inst_of s r"
      by (simp_all add: rerun_of_def inst_of_def info_def)
    have w1: "weight ?s1 (rerun_of s r) = 0"
      using pop(3) unchanged_weight [OF u, of "rerun_of s r"] by simp
    have "family ?s1 f = family s f" for f
      by (simp add: family_def Runs_query_rerun_def info_def)
    moreover have "policy_bound ?s1 r = policy_bound s r"
      by (simp add: policy_bound_def info_def)
    ultimately have b1: "length (family ?s1 (rerun_of s r)) < policy_bound ?s1 r"
      using pop(4) by simp
    have some: "rerun (heap s r) \<noteq> None"
      using invariant_parts(1) [OF inv] pop(2) by (auto simp: stored_def rerun_of_def)
    have "invariant (snd (Apsis_schedule time (next_ref ?s1) sr
             (snd (Run_new (inst_of s r) (rerun_of s r) ?s1))))"
      using i1
    proof (rule invariant_schedule_new)
      show "rerun_of s r = None \<or>
            (\<exists>r0\<in>set (runs ?s1). rerun_of s r = rerun_of ?s1 r0 \<and> inst_of s r = inst_of ?s1 r0 \<and>
               weight ?s1 (rerun_of s r) = 0 \<and>
               length (family ?s1 (rerun_of s r)) < policy_bound ?s1 r0)"
      proof (intro disjI2 bexI [of _ r] conjI)
        show "rerun_of s r = rerun_of ?s1 r" by (rule o1(1) [symmetric])
        show "inst_of s r = inst_of ?s1 r" by (rule o1(2) [symmetric])
        show "weight ?s1 (rerun_of s r) = 0" by (rule w1)
        show "length (family ?s1 (rerun_of s r)) < policy_bound ?s1 r" by (rule b1)
        show "r \<in> set (runs ?s1)" by (rule r1)
      qed
    qed
    moreover have "step ev s = snd (Apsis_schedule time (next_ref ?s1) sr
             (snd (Run_new (inst_of s r) (rerun_of s r) ?s1)))"
      using Ev_task lt some
      by (auto simp: step_def rerun_unfold(1) inst_of_def rerun_of_def info_def)
    ultimately show ?thesis by simp
  qed
qed

lemma invariant_run_events: "invariant s \<Longrightarrow> invariant (run_events evs s)"
  unfolding run_events_def
  by (induction evs arbitrary: s) (simp_all add: invariant_step)

lemma rerun_new_run:
  fixes s r time sr
  defines "s' \<equiv> snd (Apsis_rerun r time sr s)"
  shows "inst_of s' (next_ref s) = inst (heap s r)"
    and "rerun_of s' (next_ref s) =
           (case (if rerun (heap s r) = None then run_id (heap s r) else rerun (heap s r)) of
              None \<Rightarrow> Some (next_run_id s)
            | Some x \<Rightarrow> Some x)"
    and "jobs s' = jobs s"
proof -
  define s1 where "s1 = info (Info_rerun (run_id (heap s r)) time) s"
  define rr where "rr = (if rerun (heap s r) = None then run_id (heap s r) else rerun (heap s r))"
  define s2 where "s2 = snd (Runs_add (next_ref s1) (snd (Run_new (inst (heap s r)) rr s1)))"
  have n: "next_ref s1 = next_ref s" "next_run_id s1 = next_run_id s" "jobs s1 = jobs s"
    by (simp_all add: s1_def info_def)
  have "s' = snd (Apsis_schedule time (next_ref s) sr (snd (Run_new (inst (heap s r)) rr s1)))"
    by (simp only: s'_def rerun_unfold(1) s1_def rr_def)
  then have e: "s' = snd (Apsis_schedule time (next_ref s1) sr (snd (Run_new (inst (heap s r)) rr s1)))"
    by (simp only: n)
  have sr: "same_runs s2 s'"
    unfolding e s2_def by (rule same_runs_schedule_new)
  have "inst_of s' (next_ref s1) = inst_of s2 (next_ref s1)"
    using sr by (simp add: same_runs_def)
  also have "\<dots> = inst (heap s r)"
    unfolding s2_def by (rule add_run_fields(15))
  finally show "inst_of s' (next_ref s) = inst (heap s r)" by (simp only: n)
  have "rerun_of s' (next_ref s1) = rerun_of s2 (next_ref s1)"
    using sr by (simp add: same_runs_def)
  also have "\<dots> = (case rr of None \<Rightarrow> Some (next_run_id s1) | Some x \<Rightarrow> Some x)"
    unfolding s2_def by (rule add_run_fields(14))
  finally show "rerun_of s' (next_ref s) =
           (case (if rerun (heap s r) = None then run_id (heap s r) else rerun (heap s r)) of
              None \<Rightarrow> Some (next_run_id s)
            | Some x \<Rightarrow> Some x)"
    by (simp only: n rr_def)
  have "jobs s' = jobs s2" using sr by (simp add: same_runs_def)
  also have "\<dots> = jobs s1" unfolding s2_def by (rule add_run_fields(11))
  finally show "jobs s' = jobs s" by (simp only: n)
qed

lemma jobs_rerun: "jobs (snd (Apsis_rerun r time sr s)) = jobs s"
  by (rule rerun_new_run(3))

lemma jobs_step: "jobs (step ev s) = jobs s"
proof (cases ev)
  case (Ev_schedule i time sr)
  have "jobs (snd (Apsis_schedule time (next_ref s) sr (snd (Run_new i None s)))) = jobs s"
    using same_runs_schedule_new [of s i None time sr] add_run_fields(11) [of s i None]
    by (simp add: same_runs_def)
  then show ?thesis using Ev_schedule by (simp add: step_def Run_new_def)
next
  case (Ev_release r sr)
  have "jobs (snd (Apsis__start r sr (ScheduledRuns_unschedule r s))) = jobs s"
    using same_runs_start [of "ScheduledRuns_unschedule r s" r sr]
    by (simp add: same_runs_def ScheduledRuns_unschedule_def)
  then show ?thesis using Ev_release by (simp add: step_def)
next
  case (Ev_done fut oc)
  have "jobs (fold (\<lambda>r s'. snd (Apsis__wait_done r oc s')) rs s0) = jobs s0" for rs s0
  proof (induction rs arbitrary: s0)
    case Nil
    show ?case by simp
  next
    case (Cons a rs)
    show ?case
      using Cons.IH [of "snd (Apsis__wait_done a oc s0)"] same_runs_wait_done [of s0 a oc]
      by (simp add: same_runs_def)
  qed
  then show ?thesis using Ev_done by (simp add: step_def)
next
  case (Ev_task sr)
  show ?thesis
  proof (cases "loop_tasks s")
    case Nil
    then show ?thesis using Ev_task by (simp add: step_def)
  next
    case (Cons c rest)
    obtain r time where c: "c = Coro_rerun r time" by (cases c)
    have "jobs (snd (Apsis_rerun r time sr (s\<lparr>loop_tasks := rest\<rparr>))) = jobs s"
      by (simp add: jobs_rerun)
    then show ?thesis using Ev_task Cons c by (simp add: step_def)
  qed
qed

lemma jobs_run_events: "jobs (run_events evs s) = jobs s"
  unfolding run_events_def
  by (induction evs arbitrary: s) (simp_all add: jobs_step)

lemma reachable_invariant: "invariant (run_events evs (Apsis_init js clk))"
  by (rule invariant_run_events [OF invariant_init])

lemma reachable_jobs: "jobs (run_events evs (Apsis_init js clk)) = js"
  by (simp add: jobs_run_events Apsis_init_def)

lemma family_member: "r' \<in> set (family s f) \<longleftrightarrow> r' \<in> set (runs s) \<and> rerun (heap s r') = f"
  by (simp add: family_def Runs_query_rerun_def)

lemma example_rerun_fields:
  "runs example_rerun = [0, 1]"
  "run_id (heap example_rerun 0) = Some 0"
  "run_id (heap example_rerun 1) = Some 1"
  "rerun (heap example_rerun 0) = Some 0"
  "rerun (heap example_rerun 1) = Some 0"
  "inst (heap example_rerun 0) = example_inst"
  "inst (heap example_rerun 1) = example_inst"
  "state (heap example_rerun 0) = STATE_failure"
  "state (heap example_rerun 1) = STATE_scheduled"
  "run_id (heap example_rerun (Suc 0)) = Some 1"
  "rerun (heap example_rerun (Suc 0)) = Some 0"
  "inst (heap example_rerun (Suc 0)) = example_inst"
  "scheduled example_rerun = [(3005, 1)]"
  by (simp_all add: example_rerun_def example_job_def example_inst_def engine_defs Let_def)

text \<open>
  C4. Take any engine that the events have built from the empty engine with a job
  catalog: the scheduler has scheduled runs, the timed queue has released runs, programs
  have ended (in failure or otherwise) and the event loop has run the reruns that the
  rerun policy asked for, in any order and any number. Then for every stored run:
  \<^item> its rerun family, the stored runs with the same \<open>rerun\<close>, has at most
    \<open>count + 1\<close> members, \<open>count\<close> being that of the rerun policy of its job (and it
    is alone if its job is not in the catalog); no run is ever removed from the store,
    so this bounds the runs that ever exist in the family;
  \<^item> the original is in the family: a stored run whose \<open>run_id\<close> is the \<open>rerun\<close> of
    every member;
  \<^item> the members of the family have the same \<open>inst\<close>;
  \<^item> when \<^verbatim>\<open>rerun(run, time)\<close> returns a new run, that run has the \<open>inst\<close> and the
    \<open>rerun\<close> of the run it reruns.
\<close>

theorem rerun_family_bounded:
  assumes "s = run_events evs (Apsis_init js clk)" and "r \<in> set (runs s)"
  shows "length (family s (rerun (heap s r)))
           \<le> (case map_of js (job_id (inst (heap s r))) of
                 None \<Rightarrow> 1
               | Some job \<Rightarrow> count (reruns job) + 1) \<and>
         (\<exists>orig\<in>set (family s (rerun (heap s r))). run_id (heap s orig) = rerun (heap s r)) \<and>
         (\<forall>r'\<in>set (family s (rerun (heap s r))). inst (heap s r') = inst (heap s r)) \<and>
         (\<forall>time sr new_run. fst (Apsis_rerun r time sr s) = Inr new_run \<longrightarrow>
            inst (heap (snd (Apsis_rerun r time sr s)) new_run) = inst (heap s r) \<and>
            rerun (heap (snd (Apsis_rerun r time sr s)) new_run) = rerun (heap s r))"
proof (intro conjI)
  have inv: "invariant s" unfolding assms(1) by (rule reachable_invariant)
  have j: "jobs s = js" unfolding assms(1) by (rule reachable_jobs)
  note fam = invariant_parts(3) [OF inv]
  have "length (family s (rerun_of s r)) + pending_reruns s (rerun_of s r) \<le> policy_bound s r"
    using invariant_parts(4) [OF inv] assms(2) by (rule bounded_family)
  then have "length (family s (rerun (heap s r))) \<le> policy_bound s r"
    by (simp add: rerun_of_def)
  then show "length (family s (rerun (heap s r)))
           \<le> (case map_of js (job_id (inst (heap s r))) of
                 None \<Rightarrow> 1
               | Some job \<Rightarrow> count (reruns job) + 1)"
    by (simp add: policy_bound_def j)
  from fam assms(2) obtain orig where o: "orig \<in> set (runs s)"
    "run_id_of s orig = rerun_of s r" "rerun_of s orig = rerun_of s r"
    unfolding families_def by blast
  then have "orig \<in> set (family s (rerun (heap s r)))" "run_id (heap s orig) = rerun (heap s r)"
    by (simp_all add: family_member rerun_of_def run_id_of_def)
  then show "\<exists>orig\<in>set (family s (rerun (heap s r))). run_id (heap s orig) = rerun (heap s r)"
    by (rule bexI [rotated])
  show "\<forall>r'\<in>set (family s (rerun (heap s r))). inst (heap s r') = inst (heap s r)"
  proof
    fix r' assume "r' \<in> set (family s (rerun (heap s r)))"
    then have m: "r' \<in> set (runs s)" "rerun_of s r' = rerun_of s r"
      by (simp_all add: family_member rerun_of_def)
    from fam m(1) assms(2) m(2) have "inst_of s r' = inst_of s r"
      unfolding families_def by blast
    then show "inst (heap s r') = inst (heap s r)" by (simp add: inst_of_def)
  qed
  from invariant_parts(1) [OF inv] assms(2) obtain f where f: "rerun (heap s r) = Some f"
    unfolding stored_def rerun_of_def by blast
  show "\<forall>time sr new_run. fst (Apsis_rerun r time sr s) = Inr new_run \<longrightarrow>
            inst (heap (snd (Apsis_rerun r time sr s)) new_run) = inst (heap s r) \<and>
            rerun (heap (snd (Apsis_rerun r time sr s)) new_run) = rerun (heap s r)"
  proof (intro allI impI)
    fix time sr new_run
    assume "fst (Apsis_rerun r time sr s) = Inr new_run"
    then have n: "new_run = next_ref s" by (rule rerun_unfold(2))
    show "inst (heap (snd (Apsis_rerun r time sr s)) new_run) = inst (heap s r) \<and>
            rerun (heap (snd (Apsis_rerun r time sr s)) new_run) = rerun (heap s r)"
      using rerun_new_run(1,2) [of r time sr s] f
      by (simp add: n inst_of_def rerun_of_def)
  qed
qed

theorem rerun_family_bounded_witness:
  "1 \<in> set (runs example_rerun) \<and>
   family example_rerun (rerun (heap example_rerun 1)) = [0, 1] \<and>
   length (family example_rerun (rerun (heap example_rerun 1))) \<le> count (reruns example_job) + 1 \<and>
   run_id (heap example_rerun 0) = rerun (heap example_rerun 1) \<and>
   inst (heap example_rerun 0) = inst (heap example_rerun 1) \<and>
   fst (Apsis_rerun 1 (Some 4000) (Start_returns [] []) example_rerun) = Inr 2 \<and>
   inst (heap (snd (Apsis_rerun 1 (Some 4000) (Start_returns [] []) example_rerun)) 2)
     = example_inst \<and>
   rerun (heap (snd (Apsis_rerun 1 (Some 4000) (Start_returns [] []) example_rerun)) 2) = Some 0"
proof -
  have r: "1 \<in> set (runs example_rerun)" by (simp add: example_rerun_fields)
  have f: "family example_rerun (rerun (heap example_rerun 1)) = [0, 1]"
    by (simp add: family_def Runs_query_rerun_def example_rerun_fields)
  have c: "fst (Apsis_rerun 1 (Some 4000) (Start_returns [] []) example_rerun) = Inr 2"
    by (simp add: example_rerun_def example_job_def example_inst_def engine_defs Let_def)
  note t = rerun_family_bounded [OF example_rerun_def r]
  from t have "length (family example_rerun (rerun (heap example_rerun 1)))
          \<le> (case map_of [(''j1'', example_job)] (job_id (inst (heap example_rerun 1))) of
                None \<Rightarrow> 1
              | Some job \<Rightarrow> count (reruns job) + 1)"
    by (elim conjE)
  moreover from t have "\<forall>r'\<in>set (family example_rerun (rerun (heap example_rerun 1))).
           inst (heap example_rerun r') = inst (heap example_rerun 1)"
    by (elim conjE)
  moreover from t have "\<forall>time sr new_run.
      fst (Apsis_rerun 1 time sr example_rerun) = Inr new_run \<longrightarrow>
      inst (heap (snd (Apsis_rerun 1 time sr example_rerun)) new_run)
        = inst (heap example_rerun 1) \<and>
      rerun (heap (snd (Apsis_rerun 1 time sr example_rerun)) new_run)
        = rerun (heap example_rerun 1)"
    by (elim conjE)
  then have "inst (heap (snd (Apsis_rerun 1 (Some 4000) (Start_returns [] []) example_rerun)) 2)
        = inst (heap example_rerun 1) \<and>
      rerun (heap (snd (Apsis_rerun 1 (Some 4000) (Start_returns [] []) example_rerun)) 2)
        = rerun (heap example_rerun 1)"
    using c by blast
  ultimately show ?thesis
    using r f c by (simp add: example_rerun_fields example_inst_def)
qed

end
